theory Spec2Isabelle
  imports Complex_Main "HOL-Library.Char_ord" "HOL-Library.List_Lexorder" "HOL-Library.AList"
begin

section \<open>Workflow documents\<close>

text \<open>
  The documents are what \<^verbatim>\<open>json.load\<close> returns: dictionaries (insertion ordered, keys
  unique), lists, and the scalars \<^verbatim>\<open>None\<close>, \<^verbatim>\<open>bool\<close>, \<^verbatim>\<open>int\<close> (unbounded), \<^verbatim>\<open>float\<close> and
  \<^verbatim>\<open>str\<close>. A finite float is represented by the rational it denotes; the three special
  floats the Python parser accepts are separate constants. A string is represented by its
  UTF-8 bytes, which keeps equality, concatenation and the code point order.
\<close>

datatype pyfloat = Finite rat | PosInf | NegInf | NaN

datatype scalar = SNone | SBool bool | SInt int | SFloat pyfloat | SStr string

datatype json =
    Scalar scalar
  | JList "json list"
  | JDict "(string \<times> json) list"

abbreviation JInt :: "int \<Rightarrow> json" where
  "JInt n \<equiv> Scalar (SInt n)"

abbreviation JStr :: "string \<Rightarrow> json" where
  "JStr s \<equiv> Scalar (SStr s)"

abbreviation py_None :: json where
  "py_None \<equiv> Scalar SNone"

text \<open>Well-formed documents: no dictionary holds a key twice.\<close>

fun wf_json :: "json \<Rightarrow> bool" where
  "wf_json (Scalar s) = True"
| "wf_json (JList xs) = list_all wf_json xs"
| "wf_json (JDict kvs) = (distinct (map fst kvs) \<and> list_all (\<lambda>kv. wf_json (snd kv)) kvs)"

subsection \<open>The runtime type tests\<close>

text \<open>\<^verbatim>\<open>isinstance(v, (int, float))\<close>; a Python \<^verbatim>\<open>bool\<close> is an \<^verbatim>\<open>int\<close>.\<close>

fun is_int_or_float :: "json \<Rightarrow> bool" where
  "is_int_or_float (Scalar (SBool b)) = True"
| "is_int_or_float (Scalar (SInt n)) = True"
| "is_int_or_float (Scalar (SFloat f)) = True"
| "is_int_or_float _ = False"

text \<open>\<^verbatim>\<open>isinstance(v, str)\<close>\<close>

fun is_str :: "json \<Rightarrow> bool" where
  "is_str (Scalar (SStr s)) = True"
| "is_str _ = False"

text \<open>\<^verbatim>\<open>isinstance(v, (dict, list))\<close>\<close>

fun is_dict_or_list :: "json \<Rightarrow> bool" where
  "is_dict_or_list (JDict kvs) = True"
| "is_dict_or_list (JList xs) = True"
| "is_dict_or_list (Scalar s) = False"

text \<open>\<^verbatim>\<open>isinstance(value, int) and value > -1\<close>; \<^verbatim>\<open>True\<close> and \<^verbatim>\<open>False\<close> count as 1 and 0.\<close>

fun is_int_gt_minus1 :: "json \<Rightarrow> bool" where
  "is_int_gt_minus1 (Scalar (SInt n)) = (n > -1)"
| "is_int_gt_minus1 (Scalar (SBool b)) = ((if b then 1 else 0) > (-1 :: int))"
| "is_int_gt_minus1 _ = False"

text \<open>
  \<^verbatim>\<open>str.lower()\<close> on the letters A to Z. No other character lowers to a string made of
  letters of the four control words, so the membership test is the one of the source.
\<close>

definition lower_char :: "char \<Rightarrow> char" where
  "lower_char c =
     (case map_of (zip ''ABCDEFGHIJKLMNOPQRSTUVWXYZ'' ''abcdefghijklmnopqrstuvwxyz'') c of
        Some d \<Rightarrow> d
      | None \<Rightarrow> c)"

definition lower :: "string \<Rightarrow> string" where
  "lower s = map lower_char s"

definition control_words :: "string list" where
  "control_words = [''randomize'', ''increment'', ''decrement'', ''fixed'']"

text \<open>\<^verbatim>\<open>isinstance(v, str) and v.lower() in ['randomize', 'increment', 'decrement', 'fixed']\<close>\<close>

fun is_control_str :: "json \<Rightarrow> bool" where
  "is_control_str (Scalar (SStr s)) = (lower s \<in> set control_words)"
| "is_control_str _ = False"

section \<open>normalize\_workflow\_seeds\<close>

definition seed_keys :: "string list" where
  "seed_keys = [''seed'', ''noise_seed'']"

definition control_keys_to_normalize :: "string list" where
  "control_keys_to_normalize = [''control_after_generate'', ''control_before_generate'']"

definition skipped_keys :: "string list" where
  "skipped_keys =
     [''last_node_id'', ''last_link_id'', ''version'', ''date'', ''time'', ''_meta_data_checksum'']"

text \<open>Body of the loop over \<^verbatim>\<open>seed_keys\<close>.\<close>

definition zero_seed :: "string \<Rightarrow> (string \<times> json) list \<Rightarrow> (string \<times> json) list" where
  "zero_seed key workflow =
     (case map_of workflow key of
        Some v \<Rightarrow> if is_int_or_float v then AList.update key (JInt 0) workflow else workflow
      | None \<Rightarrow> workflow)"

text \<open>Body of the loop over \<^verbatim>\<open>control_keys_to_normalize\<close>.\<close>

definition fix_control :: "string \<Rightarrow> (string \<times> json) list \<Rightarrow> (string \<times> json) list" where
  "fix_control key workflow =
     (case map_of workflow key of
        Some v \<Rightarrow> if is_str v then AList.update key (JStr ''fixed'') workflow else workflow
      | None \<Rightarrow> workflow)"

text \<open>
  The loop \<^verbatim>\<open>for i, value in enumerate(widgets)\<close> from index \<open>i\<close>. The list is
  mutated while it is iterated, so \<open>value\<close> is read from the current list.
\<close>

function scan_widgets :: "nat \<Rightarrow> json list \<Rightarrow> json list" where
  "scan_widgets i widgets =
     (if i < length widgets then
        (let v = widgets ! i in
         scan_widgets (Suc i)
           (if is_int_gt_minus1 v then
              (if i + 1 < length widgets \<and> is_control_str (widgets ! (i + 1))
               then (widgets[i := JInt 0])[i + 1 := JStr ''fixed'']
               else widgets)
            else if is_control_str v then widgets[i := JStr ''fixed'']
            else widgets))
      else widgets)"
  by pat_completeness auto
termination
  by (relation "measure (\<lambda>(i, widgets). length widgets - i)") auto

declare scan_widgets.simps [simp del]

definition fix_widgets :: "(string \<times> json) list \<Rightarrow> (string \<times> json) list" where
  "fix_widgets workflow =
     (case map_of workflow ''widgets_values'' of
        Some (JList widgets) \<Rightarrow>
          AList.update ''widgets_values'' (JList (scan_widgets 0 widgets)) workflow
      | _ \<Rightarrow> workflow)"

text \<open>The three rewrites of a dictionary's own entries, in the order of the source.\<close>

definition fix_own_fields :: "(string \<times> json) list \<Rightarrow> (string \<times> json) list" where
  "fix_own_fields workflow =
     fix_widgets (fold fix_control control_keys_to_normalize (fold zero_seed seed_keys workflow))"

text \<open>
  The recursion. The source works in place on a tree without sharing, so the model
  returns the new tree. The dictionary under \<^verbatim>\<open>inputs\<close> is normalised first and then
  visited again by the loop over all items; \<open>normalize_items\<close> is that loop and
  \<open>normalize_list\<close> the loop over a list.
\<close>

function (sequential) normalize_workflow_seeds :: "json \<Rightarrow> json"
  and normalize_items :: "(string \<times> json) list \<Rightarrow> (string \<times> json) list"
  and normalize_list :: "json list \<Rightarrow> json list" where
  "normalize_workflow_seeds (JDict workflow) =
     JDict (normalize_items
        (case map_of (fix_own_fields workflow) ''inputs'' of
           Some (JDict inputs) \<Rightarrow>
             AList.update ''inputs'' (normalize_workflow_seeds (JDict inputs))
               (fix_own_fields workflow)
         | _ \<Rightarrow> fix_own_fields workflow))"
| "normalize_workflow_seeds (JList workflow) = JList (normalize_list workflow)"
| "normalize_workflow_seeds (Scalar s) = Scalar s"
| "normalize_items [] = []"
| "normalize_items ((key, v) # rest) =
     (if key \<in> set skipped_keys then (key, v)
      else if is_dict_or_list v then (key, normalize_workflow_seeds v)
      else (key, v)) # normalize_items rest"
| "normalize_list [] = []"
| "normalize_list (item # rest) = normalize_workflow_seeds item # normalize_list rest"
  by pat_completeness auto

text \<open>Termination: normalisation keeps the size of a tree.\<close>

abbreviation items_size :: "(string \<times> json) list \<Rightarrow> nat" where
  "items_size \<equiv> size_list (size_prod (\<lambda>x. 0) size)"

lemma items_size_update:
  "map_of w k = Some v \<Longrightarrow> size v' = size v \<Longrightarrow> items_size (AList.update k v' w) = items_size w"
  by (induction w) (auto split: if_splits)

lemma map_of_size: "map_of w k = Some v \<Longrightarrow> size v < Suc (items_size w)"
  by (induction w) (auto split: if_splits)

lemma size_list_update:
  "i < length xs \<Longrightarrow> f v = f (xs ! i) \<Longrightarrow> size_list f (xs[i := v]) = size_list f xs"
  by (induction xs arbitrary: i) (auto split: nat.splits)

lemma not_container_size: "\<not> is_dict_or_list v \<Longrightarrow> size v = 0"
  by (cases v) auto

lemma is_int_gt_minus1_scalar: "is_int_gt_minus1 v \<Longrightarrow> \<not> is_dict_or_list v"
  by (cases v) auto

lemma is_control_str_scalar: "is_control_str v \<Longrightarrow> \<not> is_dict_or_list v"
  by (cases v) auto

lemma is_int_or_float_scalar: "is_int_or_float v \<Longrightarrow> \<not> is_dict_or_list v"
  by (cases v) auto

lemma is_str_scalar: "is_str v \<Longrightarrow> \<not> is_dict_or_list v"
  by (cases v) auto

lemma scan_widgets_step:
  "i < length widgets \<Longrightarrow>
   scan_widgets i widgets =
     scan_widgets (Suc i)
       (if is_int_gt_minus1 (widgets ! i) then
          (if i + 1 < length widgets \<and> is_control_str (widgets ! (i + 1))
           then (widgets[i := JInt 0])[i + 1 := JStr ''fixed'']
           else widgets)
        else if is_control_str (widgets ! i) then widgets[i := JStr ''fixed'']
        else widgets)"
  by (subst scan_widgets.simps) (simp add: Let_def)

lemma scan_widgets_done: "\<not> i < length widgets \<Longrightarrow> scan_widgets i widgets = widgets"
  by (subst scan_widgets.simps) simp

lemma size_scan_widgets: "size_list size (scan_widgets i widgets) = size_list size widgets"
proof (induction i widgets rule: scan_widgets.induct)
  case (1 i widgets)
  show ?case
  proof (cases "i < length widgets")
    case True
    let ?w = "(if is_int_gt_minus1 (widgets ! i) then
              (if i + 1 < length widgets \<and> is_control_str (widgets ! (i + 1))
               then (widgets[i := JInt 0])[i + 1 := JStr ''fixed'']
               else widgets)
            else if is_control_str (widgets ! i) then widgets[i := JStr ''fixed'']
            else widgets)"
    have "size_list size ?w = size_list size widgets"
      using True
      by (auto simp: size_list_update not_container_size is_int_gt_minus1_scalar
          is_control_str_scalar)
    moreover have "size_list size (scan_widgets (Suc i) ?w) = size_list size ?w"
      using 1 [OF True refl] .
    ultimately show ?thesis
      using scan_widgets_step [OF True] by simp
  next
    case False
    then show ?thesis by (simp add: scan_widgets_done)
  qed
qed

lemma items_size_zero_seed: "items_size (zero_seed key w) = items_size w"
  by (auto simp: zero_seed_def items_size_update not_container_size is_int_or_float_scalar
      split: option.splits)

lemma items_size_fix_control: "items_size (fix_control key w) = items_size w"
  by (auto simp: fix_control_def items_size_update not_container_size is_str_scalar
      split: option.splits)

lemma items_size_fix_widgets: "items_size (fix_widgets w) = items_size w"
  by (auto simp: fix_widgets_def items_size_update size_scan_widgets
      split: option.splits json.splits)

lemma items_size_fix_own_fields: "items_size (fix_own_fields w) = items_size w"
  by (simp add: fix_own_fields_def seed_keys_def control_keys_to_normalize_def
      items_size_fix_widgets items_size_fix_control items_size_zero_seed)

lemma normalize_size_dom:
  "normalize_workflow_seeds_normalize_items_normalize_list_dom (Inl v) \<Longrightarrow>
     size (normalize_workflow_seeds v) = size v"
  "normalize_workflow_seeds_normalize_items_normalize_list_dom (Inr (Inl kvs)) \<Longrightarrow>
     items_size (normalize_items kvs) = items_size kvs"
  "normalize_workflow_seeds_normalize_items_normalize_list_dom (Inr (Inr vs)) \<Longrightarrow>
     size_list size (normalize_list vs) = size_list size vs"
proof (induction rule: normalize_workflow_seeds_normalize_items_normalize_list.pinduct)
  case (1 workflow)
  then show ?case
    by (auto simp: normalize_workflow_seeds.psimps items_size_update items_size_fix_own_fields
        split: option.splits json.splits)
qed (auto simp: normalize_workflow_seeds.psimps normalize_items.psimps normalize_list.psimps)

termination normalize_workflow_seeds
proof (relation "measure (\<lambda>x. case x of Inl v \<Rightarrow> 2 * size v
                           | Inr (Inl kvs) \<Rightarrow> 2 * items_size kvs + 1
                           | Inr (Inr vs) \<Rightarrow> 2 * size_list size vs + 1)", goal_cases)
  case 1
  then show ?case by simp
next
  case (2 workflow x2 x7)
  then show ?case
    using map_of_size [of "fix_own_fields workflow" "''inputs''" "JDict x7"]
    by (simp add: items_size_fix_own_fields)
next
  case (3 workflow)
  then show ?case
    by (auto simp: items_size_fix_own_fields items_size_update normalize_size_dom
        split: option.splits json.splits)
qed auto

declare normalize_workflow_seeds.simps(1) [simp del]

subsection \<open>What the normalisation does to one entry\<close>

text \<open>
  These functions describe the result and are used in the proofs only. \<open>scanned_at\<close> is
  the element that the scan of \<^verbatim>\<open>widgets_values\<close> leaves at an index. \<open>first_rest\<close> applies
  one function to the first entry of each key and another to the later entries of a key
  already seen (a Python dictionary has none of these). \<open>on_first\<close> is what a call does
  to the value of a key, the steps of the source in their order.
\<close>

definition scanned_at :: "json list \<Rightarrow> nat \<Rightarrow> json" where
  "scanned_at widgets j =
     (if is_int_gt_minus1 (widgets ! j) \<and> j + 1 < length widgets \<and>
         is_control_str (widgets ! (j + 1)) then JInt 0
      else if is_control_str (widgets ! j) then JStr ''fixed''
      else widgets ! j)"

fun first_rest :: "string set \<Rightarrow> (string \<Rightarrow> json \<Rightarrow> json) \<Rightarrow> (string \<Rightarrow> json \<Rightarrow> json) \<Rightarrow>
    (string \<times> json) list \<Rightarrow> (string \<times> json) list" where
  "first_rest S F G [] = []"
| "first_rest S F G ((k, v) # rest) =
     (k, if k \<in> S then G k v else F k v) # first_rest (insert k S) F G rest"

definition on_seed :: "string \<Rightarrow> string \<Rightarrow> json \<Rightarrow> json" where
  "on_seed key k v = (if k = key \<and> is_int_or_float v then JInt 0 else v)"

definition on_control :: "string \<Rightarrow> string \<Rightarrow> json \<Rightarrow> json" where
  "on_control key k v = (if k = key \<and> is_str v then JStr ''fixed'' else v)"

definition on_widgets :: "string \<Rightarrow> json \<Rightarrow> json" where
  "on_widgets k v =
     (if k = ''widgets_values''
      then (case v of JList widgets \<Rightarrow> JList (scan_widgets 0 widgets) | _ \<Rightarrow> v) else v)"

definition on_inputs :: "string \<Rightarrow> json \<Rightarrow> json" where
  "on_inputs k v =
     (if k = ''inputs''
      then (case v of JDict inputs \<Rightarrow> normalize_workflow_seeds v | _ \<Rightarrow> v) else v)"

definition on_item :: "string \<Rightarrow> json \<Rightarrow> json" where
  "on_item k v = (if k \<in> set skipped_keys then v else normalize_workflow_seeds v)"

definition on_first :: "string \<Rightarrow> json \<Rightarrow> json" where
  "on_first k v =
     on_item k (on_inputs k (on_widgets k
       (on_control ''control_before_generate'' k (on_control ''control_after_generate'' k
         (on_seed ''noise_seed'' k (on_seed ''seed'' k v))))))"

section \<open>flatten\_json\_to\_paths\<close>

text \<open>The decimal rendering of an index in \<^verbatim>\<open>f"{path}[{i}]"\<close>.\<close>

definition digit_char :: "nat \<Rightarrow> char" where
  "digit_char d = ''0123456789'' ! d"

fun str_of_nat :: "nat \<Rightarrow> string" where
  "str_of_nat n =
     (if n < 10 then [digit_char n] else str_of_nat (n div 10) @ [digit_char (n mod 10)])"

declare str_of_nat.simps [simp del]

text \<open>
  \<open>flatten_items\<close> is the loop over \<^verbatim>\<open>sorted(obj.items())\<close> and \<open>flatten_elems\<close> the
  loop over \<^verbatim>\<open>enumerate(obj)\<close> from index \<open>i\<close>. Keys are unique, so sorting the items
  compares keys only. The path argument defaults to the empty string, which is falsy.
\<close>

lemma items_size_insort_key:
  "items_size (insort_key f x xs) = items_size (x # xs)"
  by (induction xs) auto

lemma items_size_sort_key: "items_size (sort_key f xs) = items_size xs"
  by (induction xs) (auto simp: items_size_insort_key)

function (sequential) flatten_json_to_paths :: "json \<Rightarrow> string \<Rightarrow> (string \<times> scalar) list"
  and flatten_items :: "(string \<times> json) list \<Rightarrow> string \<Rightarrow> (string \<times> scalar) list"
  and flatten_elems :: "nat \<Rightarrow> json list \<Rightarrow> string \<Rightarrow> (string \<times> scalar) list" where
  "flatten_json_to_paths (JDict obj) path = flatten_items (sort_key fst obj) path"
| "flatten_json_to_paths (JList obj) path = flatten_elems 0 obj path"
| "flatten_json_to_paths (Scalar s) path = []"
| "flatten_items [] path = []"
| "flatten_items ((k, v) # rest) path =
     (let new_path = (if path \<noteq> [] then path @ ''.'' @ k else k) in
      (case v of
         Scalar s \<Rightarrow> [(new_path, s)]
       | _ \<Rightarrow> flatten_json_to_paths v new_path)
      @ flatten_items rest path)"
| "flatten_elems i [] path = []"
| "flatten_elems i (v # rest) path =
     (let new_path = path @ ''['' @ str_of_nat i @ '']'' in
      (case v of
         Scalar s \<Rightarrow> [(new_path, s)]
       | _ \<Rightarrow> flatten_json_to_paths v new_path)
      @ flatten_elems (Suc i) rest path)"
  by pat_completeness auto
termination
  by (relation "measure (\<lambda>x. case x of
          Inl (v, p) \<Rightarrow> 2 * size v
        | Inr (Inl (kvs, p)) \<Rightarrow> 2 * items_size kvs + 1
        | Inr (Inr (i, vs, p)) \<Rightarrow> 2 * size_list size vs + 1)")
    (auto simp: items_size_sort_key)

section \<open>calculate\_json\_difference\_percentage\<close>

text \<open>
  Python's \<^verbatim>\<open>set\<close> identifies the tuples that compare equal: the paths are equal strings
  and the values are equal under \<^verbatim>\<open>==\<close>, where \<^verbatim>\<open>True == 1 == 1.0\<close> and an \<^verbatim>\<open>int\<close> equals
  the \<^verbatim>\<open>float\<close> of the same numeric value. \<open>py_eq_repr\<close> picks one representative of
  each class of equal scalars. The parser returns one and the same object for every
  \<^verbatim>\<open>NaN\<close>, and a set compares by identity first, so \<open>NaN\<close> is a value like the others.
\<close>

fun py_eq_repr :: "scalar \<Rightarrow> scalar" where
  "py_eq_repr (SBool b) = SFloat (Finite (if b then 1 else 0))"
| "py_eq_repr (SInt n) = SFloat (Finite (of_int n))"
| "py_eq_repr s = s"

definition py_set :: "(string \<times> scalar) list \<Rightarrow> (string \<times> scalar) set" where
  "py_set paths = set (map (\<lambda>(p, v). (p, py_eq_repr v)) paths)"

subsection \<open>Float arithmetic\<close>

text \<open>
  A finite Python float is a binary64 number and is represented by the rational it
  denotes. \<open>round_binary64\<close> rounds a rational to the nearest binary64 number, ties to
  the even mantissa: the value is scaled to a mantissa between \<open>2^52\<close> and \<open>2^53\<close>,
  the mantissa is rounded to an integer, and the result is scaled back. \<open>bit_length\<close>
  is the number of binary digits of a positive integer and \<open>floor_log2\<close> the exponent
  of a positive rational. The range of the exponent is not modelled: the numbers rounded
  here are the quotient of two counts, the first at most the second, and its hundredfold,
  which are far from overflow and underflow for any list that fits in memory.
\<close>

function bit_length :: "int \<Rightarrow> nat" where
  "bit_length n = (if n \<le> 0 then 0 else Suc (bit_length (n div 2)))"
  by pat_completeness auto
termination
  by (relation "measure nat") auto

declare bit_length.simps [simp del]

definition pow2 :: "int \<Rightarrow> rat" where
  "pow2 k = (if 0 \<le> k then 2 ^ nat k else 1 / 2 ^ nat (- k))"

definition floor_log2 :: "rat \<Rightarrow> int" where
  "floor_log2 q =
     (let (a, b) = quotient_of q;
          k = int (bit_length a) - int (bit_length b)
      in if pow2 k \<le> q then k else k - 1)"

definition round_half_even :: "rat \<Rightarrow> int" where
  "round_half_even m =
     (let n = \<lfloor>m\<rfloor>; r = m - of_int n
      in if r < 1 / 2 then n
         else if 1 / 2 < r then n + 1
         else if even n then n else n + 1)"

definition round_binary64 :: "rat \<Rightarrow> rat" where
  "round_binary64 q =
     (if q = 0 then 0
      else let e = floor_log2 \<bar>q\<bar>
           in sgn q * of_int (round_half_even (\<bar>q\<bar> * pow2 (52 - e))) * pow2 (e - 52))"

text \<open>
  \<^verbatim>\<open>a / b\<close> on two \<^verbatim>\<open>int\<close>s is the correctly rounded quotient, and \<^verbatim>\<open>x * 100\<close> on a float
  is the correctly rounded product with the float 100.0.
\<close>

definition py_truediv :: "nat \<Rightarrow> nat \<Rightarrow> rat" where
  "py_truediv a b = round_binary64 (of_nat a / of_nat b)"

definition py_float_mul :: "rat \<Rightarrow> rat \<Rightarrow> rat" where
  "py_float_mul x y = round_binary64 (x * y)"

subsection \<open>The percentage\<close>

text \<open>
  The result is the float that the source computes, as the rational it denotes. The deep
  copies are the values themselves.
\<close>

definition calculate_json_difference_percentage :: "json \<Rightarrow> json \<Rightarrow> rat" where
  "calculate_json_difference_percentage json1_data json2_data =
     (let normalized_json1 = normalize_workflow_seeds json1_data;
          normalized_json2 = normalize_workflow_seeds json2_data;
          paths1 = py_set (flatten_json_to_paths normalized_json1 []);
          paths2 = py_set (flatten_json_to_paths normalized_json2 []);
          unique_to_1 = paths1 - paths2;
          unique_to_2 = paths2 - paths1;
          total_elements_in_union = card (paths1 \<union> paths2)
      in if total_elements_in_union = 0 then 0
         else let difference_count = card unique_to_1 + card unique_to_2
              in py_float_mul (py_truediv difference_count total_elements_in_union) 100)"

section \<open>compare\_and\_delete\_jsons\<close>

text \<open>
  The file system is a parameter: \<open>load\<close> is what reading and parsing a file gives
  (\<open>None\<close> for each of the three handlers that skip the file) and \<open>remove_ok\<close> says
  whether \<^verbatim>\<open>os.remove\<close> succeeds or raises \<^verbatim>\<open>OSError\<close>. The threshold is a finite
  float, the rational it denotes; the percentage is one too, so the test
  \<^verbatim>\<open>percentage_diff < delete_threshold_percent\<close> is the order of the rationals. An
  infinite or \<^verbatim>\<open>NaN\<close> threshold is not modelled.
\<close>

record env =
  load :: "string \<Rightarrow> json option"
  remove_ok :: "string \<Rightarrow> bool"

datatype action = KEPT | DELETED | DELETE_ERROR

text \<open>One printed line per file.\<close>

datatype report =
    Skipped string
  | Initial string
  | Compared string "string option" rat action

text \<open>
  The variables of the loop. \<open>previous_json_data\<close> starts as \<^verbatim>\<open>None\<close>, which is also
  what a document \<^verbatim>\<open>null\<close> loads as.
\<close>

record chain =
  previous_json_data :: json
  previous_json_filename :: "string option"
  deleted_count :: nat
  total_compared :: nat

definition initial_chain :: chain where
  "initial_chain =
     \<lparr>previous_json_data = py_None, previous_json_filename = None,
      deleted_count = 0, total_compared = 0\<rparr>"

text \<open>The body of the loop over \<^verbatim>\<open>json_files\<close>.\<close>

definition process_file :: "env \<Rightarrow> rat option \<Rightarrow> chain \<Rightarrow> string \<Rightarrow> chain \<times> report" where
  "process_file e delete_threshold_percent st filename =
     (case load e filename of
        None \<Rightarrow> (st, Skipped filename)
      | Some current_json_data \<Rightarrow>
          if previous_json_data st = py_None then
            (st\<lparr>previous_json_data := current_json_data,
                previous_json_filename := Some filename\<rparr>,
             Initial filename)
          else
            (let st1 = st\<lparr>total_compared := total_compared st + 1\<rparr>;
                 percentage_diff =
                   calculate_json_difference_percentage current_json_data (previous_json_data st);
                 (st2, act) =
                   (case delete_threshold_percent of
                      None \<Rightarrow> (st1, KEPT)
                    | Some t \<Rightarrow>
                        if percentage_diff < t then
                          (if remove_ok e filename
                           then (st1\<lparr>deleted_count := deleted_count st1 + 1\<rparr>, DELETED)
                           else (st1, DELETE_ERROR))
                        else (st1, KEPT));
                 st3 = (if act = KEPT
                        then st2\<lparr>previous_json_data := current_json_data,
                                 previous_json_filename := Some filename\<rparr>
                        else st2)
             in (st3, Compared filename (previous_json_filename st) percentage_diff act)))"

text \<open>
  The loop, from a given state: the final state and the printed lines. The listing of the
  directory, its filter and its sort come before the loop and are not modelled: the run
  takes the sorted list of file names.
\<close>

fun run_files :: "env \<Rightarrow> rat option \<Rightarrow> chain \<Rightarrow> string list \<Rightarrow> chain \<times> report list" where
  "run_files e t st [] = (st, [])"
| "run_files e t st (filename # rest) =
     (let (st', r) = process_file e t st filename;
          (st'', rs) = run_files e t st' rest
      in (st'', r # rs))"

definition compare_and_delete_jsons :: "env \<Rightarrow> rat option \<Rightarrow> string list \<Rightarrow> chain \<times> report list" where
  "compare_and_delete_jsons e delete_threshold_percent json_files =
     run_files e delete_threshold_percent initial_chain json_files"

subsection \<open>What a run retains\<close>

text \<open>
  A printed line stands for a retained file when it is the initial line or a comparison
  that ended in \<open>KEPT\<close>; \<open>retained\<close> follows the name of the last retained file along
  the printed lines.
\<close>

fun is_retained :: "report \<Rightarrow> bool" where
  "is_retained (Skipped f) = False"
| "is_retained (Initial f) = True"
| "is_retained (Compared f p d act) = (act = KEPT)"

fun retained :: "string option \<Rightarrow> report \<Rightarrow> string option" where
  "retained b (Skipped f) = b"
| "retained b (Initial f) = Some f"
| "retained b (Compared f p d act) = (if act = KEPT then Some f else b)"

subsection \<open>Leaves and their locations\<close>

text \<open>
  The vocabulary of the statements about the flattening; none of it is in the source.
  A location is the route from the root to a scalar: the keys and indices passed.
  \<open>leaf_list\<close> lists the scalars of a tree with their locations, and \<open>py_leaves\<close> is
  the set of them with the values up to Python's equality. \<open>render_from\<close> is the
  string that the flattening builds for a location, from the path it starts with.
  A key is plain when it is not empty and holds neither a dot nor an opening bracket.
\<close>

datatype step = Key string | Index nat

fun leaf_list :: "json \<Rightarrow> (step list \<times> scalar) list"
  and leaf_items :: "(string \<times> json) list \<Rightarrow> (step list \<times> scalar) list"
  and leaf_elems :: "nat \<Rightarrow> json list \<Rightarrow> (step list \<times> scalar) list" where
  "leaf_list (Scalar s) = [([], s)]"
| "leaf_list (JList xs) = leaf_elems 0 xs"
| "leaf_list (JDict kvs) = leaf_items kvs"
| "leaf_items [] = []"
| "leaf_items ((k, v) # rest) =
     map (\<lambda>(loc, s). (Key k # loc, s)) (leaf_list v) @ leaf_items rest"
| "leaf_elems i [] = []"
| "leaf_elems i (v # rest) =
     map (\<lambda>(loc, s). (Index i # loc, s)) (leaf_list v) @ leaf_elems (Suc i) rest"

fun render_from :: "string \<Rightarrow> step list \<Rightarrow> string" where
  "render_from p [] = p"
| "render_from p (Key k # rest) = render_from (if p \<noteq> [] then p @ ''.'' @ k else k) rest"
| "render_from p (Index i # rest) = render_from (p @ ''['' @ str_of_nat i @ '']'') rest"

definition plain_key :: "string \<Rightarrow> bool" where
  "plain_key k = (k \<noteq> [] \<and> CHR ''.'' \<notin> set k \<and> CHR ''['' \<notin> set k)"

fun plain_keys :: "json \<Rightarrow> bool" where
  "plain_keys (Scalar s) = True"
| "plain_keys (JList xs) = list_all plain_keys xs"
| "plain_keys (JDict kvs) = list_all (\<lambda>kv. plain_key (fst kv) \<and> plain_keys (snd kv)) kvs"

definition py_leaves :: "json \<Rightarrow> (step list \<times> scalar) set" where
  "py_leaves t = set (map (\<lambda>(loc, v). (loc, py_eq_repr v)) (leaf_list t))"

text \<open>The piece of a path that one step adds to a path that is not empty.\<close>

fun seg :: "step \<Rightarrow> string" where
  "seg (Key k) = CHR ''.'' # k"
| "seg (Index i) = CHR ''['' # str_of_nat i @ '']''"

definition delim :: "char \<Rightarrow> bool" where
  "delim c = (c = CHR ''.'' \<or> c = CHR ''['')"

definition tail_ok :: "string \<Rightarrow> bool" where
  "tail_ok r = (r = [] \<or> delim (hd r))"

fun plain_step :: "step \<Rightarrow> bool" where
  "plain_step (Key k) = plain_key k"
| "plain_step (Index i) = True"

subsection \<open>The documents of the chain example\<close>

definition F1 :: json where
  "F1 = JDict [(''seed'', JInt 1), (''x'', JInt 5)]"

definition F2 :: json where
  "F2 = JDict [(''seed'', JInt 2), (''x'', JInt 5)]"

definition F3 :: json where
  "F3 = JDict [(''seed'', JInt 3), (''x'', JInt 9)]"

text \<open>A directory with the three documents, where every removal succeeds or every one fails.\<close>

definition example_env :: "bool \<Rightarrow> env" where
  "example_env ok =
     \<lparr>load = map_of [(''F1.json'', F1), (''F2.json'', F2), (''F3.json'', F3)],
      remove_ok = (\<lambda>f. ok)\<rparr>"

text \<open>The state of the loop once \<open>F1\<close> is the baseline.\<close>

definition chain_at_F1 :: chain where
  "chain_at_F1 =
     \<lparr>previous_json_data = F1, previous_json_filename = Some ''F1.json'',
      deleted_count = 0, total_compared = 0\<rparr>"

text \<open>A directory whose first document is \<^verbatim>\<open>null\<close> and whose second is \<^verbatim>\<open>5\<close>.\<close>

definition null_then_five :: env where
  "null_then_five =
     \<lparr>load = map_of [(''a.json'', py_None), (''b.json'', JInt 5)], remove_ok = (\<lambda>f. True)\<rparr>"

subsection \<open>Further example documents\<close>


text \<open>Two trees that differ in the scalars under \<^verbatim>\<open>last_node_id\<close> and \<^verbatim>\<open>version\<close> only.\<close>

definition versioned_a :: json where
  "versioned_a = JDict [(''last_node_id'', JInt 10), (''version'', JInt 1), (''x'', JInt 5)]"

definition versioned_b :: json where
  "versioned_b = JDict [(''last_node_id'', JInt 11), (''version'', JInt 2), (''x'', JInt 5)]"

text \<open>
  Two normalised trees with one leaf each, at different locations: under the key
  \<^verbatim>\<open>a.b\<close> of the root, and under the key \<^verbatim>\<open>b\<close> of the mapping under \<^verbatim>\<open>a\<close>.
\<close>

definition dotted_key :: json where
  "dotted_key = JDict [(''a.b'', JInt 1)]"

definition nested_key :: json where
  "nested_key = JDict [(''a'', JDict [(''b'', JInt 1)])]"

text \<open>
  Two trees with the same leaves, written in a different order and with values that are
  equal in Python (\<^verbatim>\<open>1 == True\<close>, \<^verbatim>\<open>2 == 2.0\<close>).
\<close>

definition leaves_a :: json where
  "leaves_a = JDict [(''a'', JDict [(''b'', JInt 1)]), (''c'', JList [JInt 2, JStr ''x''])]"

definition leaves_b :: json where
  "leaves_b =
     JDict [(''c'', JList [Scalar (SFloat (Finite 2)), JStr ''x'']),
            (''a'', JDict [(''b'', Scalar (SBool True))])]"

text \<open>Two trees at distance 50: one pair in both, one pair in the second only.\<close>

definition half_a :: json where
  "half_a = JDict [(''a'', JInt 1)]"

definition half_b :: json where
  "half_b = JDict [(''a'', JInt 1), (''b'', JInt 2)]"

definition half_env :: env where
  "half_env =
     \<lparr>load = map_of [(''a.json'', half_a), (''b.json'', half_b)], remove_ok = (\<lambda>f. True)\<rparr>"

definition chain_at_half_a :: chain where
  "chain_at_half_a =
     \<lparr>previous_json_data = half_a, previous_json_filename = Some ''a.json'',
      deleted_count = 0, total_compared = 0\<rparr>"

text \<open>Two lists of ones, of length 21 and 50: 29 differing pairs out of 50.\<close>

definition twenty_one_ones :: json where
  "twenty_one_ones = JList (replicate 21 (JInt 1))"

definition fifty_ones :: json where
  "fifty_ones = JList (replicate 50 (JInt 1))"

definition ones_env :: env where
  "ones_env =
     \<lparr>load = map_of [(''a.json'', twenty_one_ones), (''b.json'', fifty_ones)],
      remove_ok = (\<lambda>f. True)\<rparr>"

definition chain_at_twenty_one :: chain where
  "chain_at_twenty_one =
     \<lparr>previous_json_data = twenty_one_ones, previous_json_filename = Some ''a.json'',
      deleted_count = 0, total_compared = 0\<rparr>"

section \<open>Properties of the normalisation\<close>

subsection \<open>The scan of the widget values\<close>

lemma is_control_str_fixed: "is_control_str (JStr ''fixed'')"
  by (simp add: lower_def lower_char_def control_words_def)

lemma control_not_int: "is_control_str v \<Longrightarrow> \<not> is_int_gt_minus1 v"
  by (cases v rule: is_control_str.cases) auto

lemma length_scan_widgets: "length (scan_widgets i widgets) = length widgets"
proof (induction i widgets rule: scan_widgets.induct)
  case (1 i widgets)
  show ?case
  proof (cases "i < length widgets")
    case True
    from 1 [OF True refl] show ?thesis
      by (subst scan_widgets_step [OF True]) (simp split: if_splits)
  next
    case False
    then show ?thesis by (simp add: scan_widgets_done)
  qed
qed

lemma nth_scan_widgets:
  "j < length widgets \<Longrightarrow>
   scan_widgets i widgets ! j = (if j < i then widgets ! j else scanned_at widgets j)"
proof (induction i widgets arbitrary: j rule: scan_widgets.induct)
  case (1 i widgets)
  show ?case
  proof (cases "i < length widgets")
    case True
    let ?w = "(if is_int_gt_minus1 (widgets ! i) then
              (if i + 1 < length widgets \<and> is_control_str (widgets ! (i + 1))
               then (widgets[i := JInt 0])[i + 1 := JStr ''fixed'']
               else widgets)
            else if is_control_str (widgets ! i) then widgets[i := JStr ''fixed'']
            else widgets)"
    have len: "length ?w = length widgets" by simp
    have eq: "scan_widgets i widgets = scan_widgets (Suc i) ?w"
      by (rule scan_widgets_step [OF True])
    have IH: "scan_widgets (Suc i) ?w ! j = (if j < Suc i then ?w ! j else scanned_at ?w j)"
      using 1 (1) [OF True refl, of j] 1 (2) len by simp
    have below: "j < i \<Longrightarrow> ?w ! j = widgets ! j"
      by simp
    have at: "?w ! i = scanned_at widgets i"
      using True by (auto simp: scanned_at_def control_not_int)
    have above: "i < j \<Longrightarrow> scanned_at ?w j = scanned_at widgets j"
      using 1 (2)
      by (auto simp: scanned_at_def nth_list_update is_control_str_fixed control_not_int)
    show ?thesis
      unfolding eq IH using below at above
      by (cases "j < i"; cases "j = i") auto
  next
    case False
    with 1 (2) show ?thesis by (simp add: scan_widgets_done)
  qed
qed

lemma int_not_control: "is_int_gt_minus1 v \<Longrightarrow> \<not> is_control_str v"
  using control_not_int by blast

lemma scanned_at_int [simp]:
  "is_int_gt_minus1 (scanned_at ws j) = is_int_gt_minus1 (ws ! j)"
  by (auto simp: scanned_at_def is_control_str_fixed control_not_int)

lemma scanned_at_control [simp]:
  "is_control_str (scanned_at ws j) = is_control_str (ws ! j)"
  using is_control_str_fixed by (auto simp: scanned_at_def control_not_int)

lemma scan_widgets_nth0:
  "j < length ws \<Longrightarrow> scan_widgets 0 ws ! j = scanned_at ws j"
  by (simp add: nth_scan_widgets)

subsection \<open>The normal form of a normalised dictionary\<close>

lemma first_rest_id:
  assumes "\<forall>(k, v) \<in> set w. (k \<notin> S \<longrightarrow> F k v = v) \<and> G k v = v"
  shows "first_rest S F G w = w"
  using assms
proof (induction w arbitrary: S)
  case Nil
  then show ?case by simp
next
  case (Cons kv w)
  obtain k v where kv: "kv = (k, v)" by (cases kv)
  from Cons.prems have "\<forall>(k', v') \<in> set w. (k' \<notin> insert k S \<longrightarrow> F k' v' = v') \<and> G k' v' = v'"
    by auto
  from Cons.IH [OF this] Cons.prems kv show ?case by auto
qed

lemma first_rest_cong:
  assumes "\<forall>(k, v) \<in> set w. F k v = F' k v \<and> G k v = G' k v"
  shows "first_rest S F G w = first_rest S F' G' w"
  using assms by (induction w arbitrary: S) auto

lemma first_rest_comp:
  "first_rest S F G (first_rest S F' G' w) =
   first_rest S (\<lambda>k v. F k (F' k v)) (\<lambda>k v. G k (G' k v)) w"
  by (induction w arbitrary: S) auto

lemma map_of_first_rest:
  "k \<notin> S \<Longrightarrow> map_of (first_rest S F G w) k = map_option (F k) (map_of w k)"
proof (induction w arbitrary: S)
  case Nil
  then show ?case by simp
next
  case (Cons kv w)
  obtain k0 v0 where kv: "kv = (k0, v0)" by (cases kv)
  show ?case
  proof (cases "k0 = k")
    case True
    with kv Cons.prems show ?thesis by simp
  next
    case False
    with Cons.prems have "k \<notin> insert k0 S" by simp
    from Cons.IH [OF this] False kv show ?thesis by simp
  qed
qed

lemma map_fst_first_rest: "map fst (first_rest S F G w) = map fst w"
  by (induction w arbitrary: S) auto

lemma first_rest_single:
  assumes "\<And>k x. k \<noteq> key \<Longrightarrow> F k x = x" and "key \<notin> S"
  shows "first_rest S F (\<lambda>k x. x) w =
    (case map_of w key of None \<Rightarrow> w | Some v \<Rightarrow> AList.update key (F key v) w)"
  using assms(2)
proof (induction w arbitrary: S)
  case Nil
  then show ?case by simp
next
  case (Cons kv w)
  obtain k0 v0 where kv: "kv = (k0, v0)" by (cases kv)
  show ?case
  proof (cases "k0 = key")
    case True
    have "first_rest (insert key S) F (\<lambda>k x. x) w = w"
      by (rule first_rest_id) (auto simp: assms(1))
    with True kv Cons.prems show ?thesis by simp
  next
    case False
    with Cons.prems have "key \<notin> insert k0 S" by simp
    from Cons.IH [OF this] False kv assms(1) [of k0 v0] show ?thesis
      by (auto split: option.splits)
  qed
qed

lemma zero_seed_first_rest:
  "zero_seed key w = first_rest {} (on_seed key) (\<lambda>k x. x) w"
  by (subst first_rest_single [where key = key])
    (auto simp: zero_seed_def on_seed_def update_triv split: option.splits)

lemma fix_control_first_rest:
  "fix_control key w = first_rest {} (on_control key) (\<lambda>k x. x) w"
  by (subst first_rest_single [where key = key])
    (auto simp: fix_control_def on_control_def update_triv split: option.splits)

lemma fix_widgets_first_rest:
  "fix_widgets w = first_rest {} on_widgets (\<lambda>k x. x) w"
  by (subst first_rest_single [where key = "''widgets_values''"])
    (auto simp: fix_widgets_def on_widgets_def update_triv split: option.splits json.splits)

lemma normalize_items_first_rest:
  "normalize_items w = first_rest S on_item on_item w"
proof (induction w arbitrary: S)
  case Nil
  then show ?case by simp
next
  case (Cons kv w)
  obtain k v where kv: "kv = (k, v)" by (cases kv)
  have "is_dict_or_list v \<or> normalize_workflow_seeds v = v"
    by (cases v) auto
  with Cons.IH [of "insert k S"] kv show ?case
    by (auto simp: on_item_def)
qed

lemma normalize_dict:
  "normalize_workflow_seeds (JDict w) = JDict (first_rest {} on_first on_item w)"
proof -
  let ?own = "fix_own_fields w"
  have own: "?own = first_rest {} (\<lambda>k v. on_widgets k
       (on_control ''control_before_generate'' k (on_control ''control_after_generate'' k
         (on_seed ''noise_seed'' k (on_seed ''seed'' k v))))) (\<lambda>k x. x) w"
    by (simp add: fix_own_fields_def seed_keys_def control_keys_to_normalize_def
        zero_seed_first_rest fix_control_first_rest fix_widgets_first_rest first_rest_comp)
  have inp: "(case map_of ?own ''inputs'' of
           Some (JDict inputs) \<Rightarrow>
             AList.update ''inputs'' (normalize_workflow_seeds (JDict inputs)) ?own
         | _ \<Rightarrow> ?own) = first_rest {} on_inputs (\<lambda>k x. x) ?own"
    by (subst first_rest_single [where key = "''inputs''"])
      (auto simp: on_inputs_def update_triv split: option.splits json.splits)
  show ?thesis
    by (subst normalize_workflow_seeds.simps(1), subst inp)
      (simp add: own normalize_items_first_rest [of _ "{}"] first_rest_comp on_first_def [abs_def])
qed

lemma normalize_list_map: "normalize_list xs = map normalize_workflow_seeds xs"
  by (induction xs) auto


lemma normalize_container: "is_dict_or_list (normalize_workflow_seeds v) = is_dict_or_list v"
  by (cases v) (auto simp: normalize_dict)

lemma normalize_is_int_or_float [simp]:
  "is_int_or_float (normalize_workflow_seeds v) = is_int_or_float v"
  by (cases v) (auto simp: normalize_dict)

lemma normalize_is_str [simp]: "is_str (normalize_workflow_seeds v) = is_str v"
  by (cases v) (auto simp: normalize_dict)

lemma normalize_is_int_gt_minus1 [simp]:
  "is_int_gt_minus1 (normalize_workflow_seeds v) = is_int_gt_minus1 v"
  by (cases v) (auto simp: normalize_dict)

lemma normalize_is_control_str [simp]:
  "is_control_str (normalize_workflow_seeds v) = is_control_str v"
  by (cases v) (auto simp: normalize_dict)

lemma scan_normalize_scan:
  "scan_widgets 0 (map normalize_workflow_seeds (scan_widgets 0 ws)) =
   map normalize_workflow_seeds (scan_widgets 0 ws)"
proof (rule nth_equalityI)
  show "length (scan_widgets 0 (map normalize_workflow_seeds (scan_widgets 0 ws))) =
        length (map normalize_workflow_seeds (scan_widgets 0 ws))"
    by (simp add: length_scan_widgets)
next
  fix j
  assume "j < length (scan_widgets 0 (map normalize_workflow_seeds (scan_widgets 0 ws)))"
  then have j: "j < length ws" by (simp add: length_scan_widgets)
  let ?xs = "scan_widgets 0 ws"
  have len: "length ?xs = length ws" by (rule length_scan_widgets)
  have "scan_widgets 0 (map normalize_workflow_seeds ?xs) ! j =
        scanned_at (map normalize_workflow_seeds ?xs) j"
    using j len by (simp add: scan_widgets_nth0)
  also have "\<dots> = normalize_workflow_seeds (?xs ! j)"
  proof (cases "Suc j < length ws")
    case True
    then show ?thesis
      using j len
      by (auto simp: scanned_at_def [of "map normalize_workflow_seeds ?xs"] scan_widgets_nth0)
        (auto simp: scanned_at_def is_control_str_fixed control_not_int)
  next
    case False
    then show ?thesis
      using j len
      by (auto simp: scanned_at_def [of "map normalize_workflow_seeds ?xs"] scan_widgets_nth0)
        (auto simp: scanned_at_def is_control_str_fixed control_not_int)
  qed
  finally show "scan_widgets 0 (map normalize_workflow_seeds ?xs) ! j =
        map normalize_workflow_seeds ?xs ! j"
    using j len by simp
qed

lemma item_size: "(k, v) \<in> set w \<Longrightarrow> size v < size (JDict w)"
  by (induction w) auto

lemma elem_size: "x \<in> set xs \<Longrightarrow> size x < size (JList xs)"
  by (induction xs) auto

lemma on_first_seed:
  "on_first ''seed'' v = (if is_int_or_float v then JInt 0 else normalize_workflow_seeds v)"
  "on_first ''noise_seed'' v = (if is_int_or_float v then JInt 0 else normalize_workflow_seeds v)"
  by (simp_all add: on_first_def on_seed_def on_control_def on_widgets_def on_inputs_def
      on_item_def skipped_keys_def)

lemma on_first_control:
  "on_first ''control_after_generate'' v =
     (if is_str v then JStr ''fixed'' else normalize_workflow_seeds v)"
  "on_first ''control_before_generate'' v =
     (if is_str v then JStr ''fixed'' else normalize_workflow_seeds v)"
  by (simp_all add: on_first_def on_seed_def on_control_def on_widgets_def on_inputs_def
      on_item_def skipped_keys_def)

lemma on_first_widgets:
  "on_first ''widgets_values'' v =
     (case v of
        JList widgets \<Rightarrow> JList (map normalize_workflow_seeds (scan_widgets 0 widgets))
      | _ \<Rightarrow> normalize_workflow_seeds v)"
  by (simp add: on_first_def on_seed_def on_control_def on_widgets_def on_inputs_def
      on_item_def skipped_keys_def normalize_list_map split: json.splits)

lemma on_first_inputs:
  "on_first ''inputs'' v =
     (case v of
        JDict inputs \<Rightarrow> normalize_workflow_seeds (normalize_workflow_seeds v)
      | _ \<Rightarrow> normalize_workflow_seeds v)"
  by (simp add: on_first_def on_seed_def on_control_def on_widgets_def on_inputs_def
      on_item_def skipped_keys_def split: json.splits)

lemma on_first_other:
  assumes "k \<noteq> ''seed''" "k \<noteq> ''noise_seed''" "k \<noteq> ''control_after_generate''"
    "k \<noteq> ''control_before_generate''" "k \<noteq> ''widgets_values''" "k \<noteq> ''inputs''"
  shows "on_first k v = on_item k v"
  using assms
  by (simp add: on_first_def on_seed_def on_control_def on_widgets_def on_inputs_def)

lemma skipped_not_special:
  assumes "k \<in> set skipped_keys"
  shows "k \<noteq> ''seed''" "k \<noteq> ''noise_seed''" "k \<noteq> ''control_after_generate''"
    "k \<noteq> ''control_before_generate''" "k \<noteq> ''widgets_values''" "k \<noteq> ''inputs''"
  using assms by (auto simp: skipped_keys_def)

lemma on_first_skipped: "k \<in> set skipped_keys \<Longrightarrow> on_first k v = v"
  by (simp add: on_first_other skipped_not_special on_item_def)

lemma on_first_idem:
  assumes IH: "\<And>y. size y \<le> size v \<Longrightarrow>
      normalize_workflow_seeds (normalize_workflow_seeds y) = normalize_workflow_seeds y"
  shows "on_first k (on_first k v) = on_first k v"
proof -
  have n: "normalize_workflow_seeds (normalize_workflow_seeds v) = normalize_workflow_seeds v"
    by (rule IH) simp
  consider (seed) "k = ''seed'' \<or> k = ''noise_seed''"
    | (control) "k = ''control_after_generate'' \<or> k = ''control_before_generate''"
    | (widgets) "k = ''widgets_values''"
    | (inputs) "k = ''inputs''"
    | (other) "k \<noteq> ''inputs''" "k \<noteq> ''widgets_values''"
        "k \<noteq> ''control_after_generate''" "k \<noteq> ''control_before_generate''"
        "k \<noteq> ''seed''" "k \<noteq> ''noise_seed''"
    by blast
  then show ?thesis
  proof cases
    case seed
    then show ?thesis
      using n by (auto simp: on_first_seed)
  next
    case control
    then show ?thesis
      using n by (auto simp: on_first_control)
  next
    case widgets
    show ?thesis
    proof (cases v)
      case (JList ws)
      have "size (JList (scan_widgets 0 ws)) \<le> size v"
        using JList by (simp add: size_scan_widgets)
      from IH [OF this]
      have "map normalize_workflow_seeds (map normalize_workflow_seeds (scan_widgets 0 ws)) =
            map normalize_workflow_seeds (scan_widgets 0 ws)"
        by (simp add: normalize_list_map)
      with widgets JList show ?thesis
        by (simp add: on_first_widgets scan_normalize_scan)
    next
      case (Scalar s)
      with widgets show ?thesis
        by (simp add: on_first_widgets)
    next
      case (JDict w)
      with widgets n show ?thesis
        by (simp add: on_first_widgets normalize_dict [of w])
    qed
  next
    case inputs
    show ?thesis
    proof (cases v)
      case (JDict w)
      with inputs n show ?thesis
        by (simp add: on_first_inputs normalize_dict [of w])
    next
      case (Scalar s)
      with inputs show ?thesis
        by (simp add: on_first_inputs)
    next
      case (JList ws)
      with inputs n show ?thesis
        by (simp add: on_first_inputs)
    qed
  next
    case other
    then show ?thesis
      using n by (simp add: on_first_other on_item_def)
  qed
qed

subsection \<open>Idempotence\<close>

text \<open>
  C7. Normalisation is idempotent: for every tree \<open>T\<close>, normalising the normalised tree
  gives the normalised tree.
\<close>

theorem normalize_idempotent:
  "normalize_workflow_seeds (normalize_workflow_seeds T) = normalize_workflow_seeds T"
proof (induction T rule: measure_induct_rule [of size])
  case (less T)
  show ?case
  proof (cases T)
    case (Scalar s)
    then show ?thesis by simp
  next
    case (JList xs)
    have "map normalize_workflow_seeds (map normalize_workflow_seeds xs) =
          map normalize_workflow_seeds xs"
      using less JList by (auto dest: elem_size)
    with JList show ?thesis by (simp add: normalize_list_map)
  next
    case (JDict w)
    have "first_rest {} on_first on_item (first_rest {} on_first on_item w) =
          first_rest {} on_first on_item w"
      unfolding first_rest_comp
    proof (rule first_rest_cong, clarify, intro conjI)
      fix k v
      assume kv: "(k, v) \<in> set w"
      then have sz: "size v < size T" using JDict by (auto dest: item_size)
      show "on_first k (on_first k v) = on_first k v"
        by (rule on_first_idem) (use sz less in auto)
      show "on_item k (on_item k v) = on_item k v"
        using less [OF sz] by (simp add: on_item_def)
    qed
    with JDict show ?thesis by (simp add: normalize_dict)
  qed
qed

subsection \<open>Pairs of a number and a control string\<close>

lemma map_of_normalize_dict:
  "normalize_workflow_seeds (JDict w) = JDict w' \<Longrightarrow>
   map_of w' k = map_option (on_first k) (map_of w k)"
  by (auto simp: normalize_dict map_of_first_rest)






section \<open>Properties of the float arithmetic\<close>

lemma pow2_pos: "0 < pow2 k"
  by (simp add: pow2_def)

lemma pow2_add: "pow2 (j + k) = pow2 j * pow2 k"
proof -
  have "pow2 k = 2 powi k" for k
    by (simp add: pow2_def power_int_def field_simps)
  then show ?thesis
    by (simp add: power_int_add)
qed

lemma round_half_even_nonneg: "0 \<le> m \<Longrightarrow> 0 \<le> round_half_even m"
  by (auto simp: round_half_even_def Let_def)

lemma round_half_even_error: "\<bar>of_int (round_half_even m) - m\<bar> \<le> 1 / 2"
  unfolding round_half_even_def Let_def
  by (auto simp: abs_if not_less; linarith)

lemma round_binary64_zero: "round_binary64 0 = 0"
  by (simp add: round_binary64_def)

lemma round_binary64_nonneg: "0 \<le> q \<Longrightarrow> 0 \<le> round_binary64 q"
  using pow2_pos [of "floor_log2 \<bar>q\<bar> - 52"] pow2_pos [of "52 - floor_log2 \<bar>q\<bar>"]
  by (auto simp: round_binary64_def Let_def sgn_if intro!: mult_nonneg_nonneg round_half_even_nonneg)

lemma bit_length_bounds:
  "0 < n \<Longrightarrow> 2 ^ (bit_length n - 1) \<le> n \<and> n < 2 ^ bit_length n"
proof (induction n rule: bit_length.induct)
  case (1 n)
  show ?case
  proof (cases "n = 1")
    case True
    then show ?thesis
      by (simp add: bit_length.simps [of 1] bit_length.simps [of 0])
  next
    case False
    with 1 (2) have pos: "0 < n div 2" by simp
    from 1 (2) have nle: "\<not> n \<le> 0" by simp
    from 1 (1) [OF nle pos]
    have lo: "2 ^ (bit_length (n div 2) - 1) \<le> n div 2"
      and hi: "n div 2 < 2 ^ bit_length (n div 2)" by simp_all
    have bl: "bit_length n = Suc (bit_length (n div 2))"
      using nle by (subst bit_length.simps) simp
    have blpos: "0 < bit_length (n div 2)"
      using pos by (subst bit_length.simps) simp
    then obtain j where j: "bit_length (n div 2) = Suc j"
      by (cases "bit_length (n div 2)") simp_all
    from lo j have "2 * 2 ^ j \<le> 2 * (n div 2)" by simp
    also have "\<dots> \<le> n" by simp
    finally have a: "2 ^ (bit_length n - 1) \<le> n"
      by (simp add: bl j)
    from hi have "n div 2 + 1 \<le> 2 ^ bit_length (n div 2)" by simp
    then have "2 * (n div 2) + 2 \<le> 2 * 2 ^ bit_length (n div 2)" by simp
    moreover have "n < 2 * (n div 2) + 2" by presburger
    ultimately have b: "n < 2 ^ bit_length n"
      by (simp add: bl)
    from a b show ?thesis ..
  qed
qed

lemma pow2_powi: "pow2 k = 2 powi k"
  by (simp add: pow2_def power_int_def field_simps)

lemma pow2_diff_nat: "pow2 (int m - int n) = 2 ^ m / 2 ^ n"
  by (simp add: pow2_powi power_int_diff)

lemma pow2_Suc: "pow2 (k + 1) = 2 * pow2 k"
  by (simp add: pow2_powi power_int_add)

lemma pow2_pred: "pow2 (k - 1) = pow2 k / 2"
  using pow2_Suc [of "k - 1"] by simp

lemma floor_log2_bounds:
  assumes "0 < q"
  shows "pow2 (floor_log2 q) \<le> q \<and> q < pow2 (floor_log2 q + 1)"
proof -
  obtain a b where ab: "quotient_of q = (a, b)" by (cases "quotient_of q")
  then have b: "0 < b" and q: "q = of_int a / of_int b"
    using quotient_of_denom_pos [OF ab] quotient_of_div [OF ab] by simp_all
  from assms q b have a: "0 < a"
    by (simp add: zero_less_divide_iff)
  define la lb where "la = bit_length a" and "lb = bit_length b"
  define k where "k = int la - int lb"
  from bit_length_bounds [OF a] have a1: "(2::rat) ^ (la - 1) \<le> of_int a" and a2: "of_int a < (2::rat) ^ la"
    unfolding la_def
    by (metis of_int_le_iff of_int_numeral of_int_power, metis of_int_less_iff of_int_numeral of_int_power)
  from bit_length_bounds [OF b] have b1: "(2::rat) ^ (lb - 1) \<le> of_int b" and b2: "of_int b < (2::rat) ^ lb"
    unfolding lb_def
    by (metis of_int_le_iff of_int_numeral of_int_power, metis of_int_less_iff of_int_numeral of_int_power)
  have lapos: "0 < la" using a unfolding la_def by (subst bit_length.simps) simp
  have lbpos: "0 < lb" using b unfolding lb_def by (subst bit_length.simps) simp
  have bq: "(0::rat) < of_int b" using b by simp
  have hi: "q < pow2 (k + 1)"
  proof -
    from lbpos have "(2::rat) ^ lb = 2 * 2 ^ (lb - 1)"
      by (cases lb) simp_all
    with b1 have "(2::rat) ^ lb \<le> 2 * of_int b" by simp
    then have "of_int a * (2::rat) ^ lb \<le> of_int a * (2 * of_int b)"
      using a by (intro mult_left_mono) simp_all
    moreover have "of_int a * (2 * of_int b) < (2::rat) ^ la * (2 * of_int b)"
      using a2 bq by (intro mult_strict_right_mono) simp_all
    ultimately have "of_int a * (2::rat) ^ lb < 2 * 2 ^ la * of_int b" by simp
    then have "of_int a / of_int b < 2 * (2 ^ la / (2::rat) ^ lb)"
      using bq by (simp add: field_simps)
    then show ?thesis
      by (simp add: q pow2_Suc k_def pow2_diff_nat)
  qed
  have lo: "pow2 (k - 1) \<le> q"
  proof -
    from lapos have "(2::rat) ^ la = 2 * 2 ^ (la - 1)"
      by (cases la) simp_all
    with a1 have "(2::rat) ^ la \<le> 2 * of_int a" by simp
    then have "(2::rat) ^ la * of_int b \<le> 2 * of_int a * of_int b"
      using bq by (intro mult_right_mono) simp_all
    moreover have "2 * of_int a * of_int b \<le> 2 * of_int a * (2::rat) ^ lb"
      using b2 a by (intro mult_left_mono) simp_all
    ultimately have "(2::rat) ^ la * of_int b \<le> 2 * of_int a * 2 ^ lb" by simp
    then have "(2 ^ la / (2::rat) ^ lb) / 2 \<le> of_int a / of_int b"
      using bq by (simp add: field_simps)
    then show ?thesis
      by (simp add: q pow2_pred k_def pow2_diff_nat)
  qed
  have fl: "floor_log2 q = (if pow2 k \<le> q then k else k - 1)"
    by (simp add: floor_log2_def ab k_def la_def lb_def)
  show ?thesis
  proof (cases "pow2 k \<le> q")
    case True
    with hi fl show ?thesis by simp
  next
    case False
    with lo fl show ?thesis by simp
  qed
qed

lemma round_binary64_nearest:
  assumes "0 < q"
  shows "\<exists>m. 2 ^ 52 \<le> m \<and> m \<le> 2 ^ 53 \<and>
           round_binary64 q = of_int m * pow2 (floor_log2 q - 52) \<and>
           \<bar>round_binary64 q - q\<bar> \<le> pow2 (floor_log2 q - 53)"
proof -
  define e where "e = floor_log2 q"
  define x where "x = q * pow2 (52 - e)"
  define m where "m = round_half_even x"
  from floor_log2_bounds [OF assms] have lo: "pow2 e \<le> q" and hi: "q < pow2 (e + 1)"
    by (simp_all add: e_def)
  have p: "pow2 e * pow2 (52 - e) = 2 ^ 52"
    using pow2_add [of e "52 - e"] by (simp add: pow2_def)
  have p': "pow2 (52 - e) * pow2 (e - 52) = 1"
    using pow2_add [of "52 - e" "e - 52"] by (simp add: pow2_def)
  have x1: "2 ^ 52 \<le> x"
    using mult_right_mono [OF lo, of "pow2 (52 - e)"] pow2_pos [of "52 - e"] p
    by (simp add: x_def)
  have x2: "x < 2 ^ 53"
    using mult_strict_right_mono [OF hi pow2_pos [of "52 - e"]] p
    by (simp add: x_def pow2_Suc)
  have err: "\<bar>of_int m - x\<bar> \<le> 1 / 2"
    unfolding m_def by (rule round_half_even_error)
  have m1: "2 ^ 52 \<le> m"
  proof -
    from err have "x - 1 / 2 \<le> of_int m" by linarith
    with x1 have "(2::rat) ^ 52 - 1 < of_int m" by linarith
    then have "(of_int (2 ^ 52 - 1) :: rat) < of_int m" by simp
    then have "2 ^ 52 - 1 < m" by (simp only: of_int_less_iff)
    then show ?thesis by simp
  qed
  have m2: "m \<le> 2 ^ 53"
  proof -
    from err have "of_int m \<le> x + 1 / 2" by linarith
    with x2 have "of_int m < (2::rat) ^ 53 + 1" by linarith
    then have "(of_int m :: rat) < of_int (2 ^ 53 + 1)" by simp
    then have "m < 2 ^ 53 + 1" by (simp only: of_int_less_iff)
    then show ?thesis by simp
  qed
  have r: "round_binary64 q = of_int m * pow2 (e - 52)"
    using assms by (simp add: round_binary64_def Let_def e_def m_def x_def)
  have qx: "q = x * pow2 (e - 52)"
    using p' by (simp add: x_def mult.assoc)
  have "\<bar>round_binary64 q - q\<bar> = \<bar>of_int m - x\<bar> * pow2 (e - 52)"
    using pow2_pos [of "e - 52"]
    by (subst r, subst qx) (simp add: left_diff_distrib [symmetric] abs_mult)
  also have "\<dots> \<le> 1 / 2 * pow2 (e - 52)"
    using err pow2_pos [of "e - 52"] by (intro mult_right_mono) simp_all
  also have "\<dots> = pow2 (e - 53)"
    using pow2_pred [of "e - 52"] by simp
  finally have "\<bar>round_binary64 q - q\<bar> \<le> pow2 (e - 53)" .
  with m1 m2 r show ?thesis
    unfolding e_def by blast
qed

text \<open>The rounding gives the binary64 numbers that Python prints for these quotients.\<close>

lemma round_binary64_examples:
  "round_binary64 (1 / 10) = 3602879701896397 / 36028797018963968"
  "round_binary64 (2 / 3) = 6004799503160661 / 9007199254740992"
  "py_float_mul (py_truediv 1 2) 100 = 50"
  "py_float_mul (py_truediv 4 5) 100 = 80"
  "py_float_mul (py_truediv 2 3) 100 = 2345624805922133 / 35184372088832"
  "py_float_mul (py_truediv 29 50) 100 = 8162774324609023 / 140737488355328"
  by code_simp+

lemma py_percentage_zero: "py_float_mul (py_truediv 0 n) 100 = 0"
  by (simp add: py_float_mul_def py_truediv_def round_binary64_zero)

lemma py_percentage_nonneg: "0 \<le> py_float_mul (py_truediv d n) 100"
  unfolding py_float_mul_def py_truediv_def
  by (intro round_binary64_nonneg mult_nonneg_nonneg) simp_all

section \<open>Properties of the difference metric\<close>

text \<open>
  C9. For every tree \<open>A\<close> the difference of \<open>A\<close> to itself is exactly 0; this includes
  the empty dictionary, where both path sets are empty.
\<close>

theorem difference_self_zero:
  "calculate_json_difference_percentage A A = 0 \<and>
   calculate_json_difference_percentage (JDict []) (JDict []) = 0"
  by (simp add: calculate_json_difference_percentage_def Let_def py_percentage_zero)

lemma flatten_items_scalar:
  "(k, Scalar s) \<in> set items \<Longrightarrow>
   ((if path \<noteq> [] then path @ ''.'' @ k else k), s) \<in> set (flatten_items items path)"
  by (induction items) (auto simp: Let_def)

text \<open>
  C1, as the claim states it: two trees that differ only in the scalars under
  \<^verbatim>\<open>last_node_id\<close> and \<^verbatim>\<open>version\<close> are not at distance 0. The flattening has no list
  of excluded keys: the four differing pairs are counted among the five of the union.
\<close>

theorem skipped_keys_counterexample:
  "calculate_json_difference_percentage versioned_a versioned_b = 80 \<and>
   calculate_json_difference_percentage versioned_a versioned_b \<noteq> 0"
  by code_simp

text \<open>
  C1, amended: the six keys are excluded from the recursion of the normalisation only.
  The value under such a key of a mapping is left exactly as it is, and when it is a
  scalar under a key of the root mapping it is one of the pairs of path and value of the
  tree, so it takes part in the distance as any other leaf does.
\<close>

theorem skipped_keys_still_compared:
  assumes "key \<in> set skipped_keys" and "map_of workflow key = Some v"
  shows "\<exists>w'. normalize_workflow_seeds (JDict workflow) = JDict w' \<and>
     map_of w' key = Some v \<and>
     (\<forall>s. v = Scalar s \<longrightarrow>
        (key, py_eq_repr s) \<in> py_set (flatten_json_to_paths (normalize_workflow_seeds (JDict workflow)) []))"
proof -
  obtain w' where w': "normalize_workflow_seeds (JDict workflow) = JDict w'"
    by (simp add: normalize_dict)
  have m: "map_of w' key = Some v"
    using map_of_normalize_dict [OF w', of key] assms by (simp add: on_first_skipped)
  have "(key, py_eq_repr s) \<in> py_set (flatten_json_to_paths (JDict w') [])" if "v = Scalar s" for s
  proof -
    from m that have "(key, Scalar s) \<in> set (sort_key fst w')"
      by (auto dest: map_of_SomeD)
    from flatten_items_scalar [OF this, of "[]"] show ?thesis
      by (force simp: py_set_def)
  qed
  with w' m show ?thesis by auto
qed

theorem skipped_keys_still_compared_witness:
  "''version'' \<in> set skipped_keys \<and>
   map_of [(''version'', JInt 2), (''x'', JInt 5)] ''version'' = Some (JInt 2) \<and>
   (\<exists>w'. normalize_workflow_seeds (JDict [(''version'', JInt 2), (''x'', JInt 5)]) = JDict w' \<and>
      map_of w' ''version'' = Some (JInt 2)) \<and>
   (''version'', py_eq_repr (SInt 2)) \<in>
     py_set (flatten_json_to_paths
       (normalize_workflow_seeds (JDict [(''version'', JInt 2), (''x'', JInt 5)])) [])"
proof -
  have h1: "''version'' \<in> set skipped_keys" by (simp add: skipped_keys_def)
  have h2: "map_of [(''version'', JInt 2), (''x'', JInt 5)] ''version'' = Some (JInt 2)" by simp
  from skipped_keys_still_compared [OF h1 h2] h1 h2 show ?thesis
    by blast
qed

text \<open>
  C2, as the claim states it: the difference of \<open>F3\<close> to \<open>F1\<close> is not 50. The metric
  counts pairs of path and value, and the two trees hold three different pairs, two of
  which (the two values at \<open>x\<close>) are in one tree only.
\<close>

theorem F3_against_F1_counterexample:
  "calculate_json_difference_percentage F3 F1 \<noteq> 50"
  by code_simp

lemma process_file_compared:
  assumes "load e filename = Some current" and "previous_json_data st \<noteq> py_None"
  shows "process_file e (Some t) st filename =
    (let d = calculate_json_difference_percentage current (previous_json_data st);
         st1 = st\<lparr>total_compared := total_compared st + 1\<rparr> in
     if d < t then
       if remove_ok e filename
       then (st1\<lparr>deleted_count := deleted_count st + 1\<rparr>,
             Compared filename (previous_json_filename st) d DELETED)
       else (st1, Compared filename (previous_json_filename st) d DELETE_ERROR)
     else (st1\<lparr>previous_json_data := current, previous_json_filename := Some filename\<rparr>,
           Compared filename (previous_json_filename st) d KEPT))"
  using assms by (simp add: process_file_def Let_def)

text \<open>
  C2, amended: the difference of \<open>F3\<close> to \<open>F1\<close> is the float 66.66666666666666, the
  binary64 number 2345624805922133 / 2^45: two differing pairs out of the three in the
  union, the quotient 2/3 rounded and its hundredfold rounded again. So with threshold 0
  a run whose baseline is \<open>F1\<close> keeps \<open>F3\<close> and makes it the baseline.
\<close>

theorem F3_against_F1:
  "calculate_json_difference_percentage F3 F1 = 2345624805922133 / 35184372088832 \<and>
   (load e filename = Some F3 \<and> previous_json_data st = F1 \<longrightarrow>
      process_file e (Some 0) st filename =
        (st\<lparr>total_compared := total_compared st + 1, previous_json_data := F3,
            previous_json_filename := Some filename\<rparr>,
         Compared filename (previous_json_filename st) (2345624805922133 / 35184372088832) KEPT))"
proof -
  have d: "calculate_json_difference_percentage F3 F1 = 2345624805922133 / 35184372088832"
    by code_simp
  have "F1 \<noteq> py_None" by (simp add: F1_def)
  then show ?thesis
    using d by (auto simp: process_file_compared Let_def)
qed

theorem F3_against_F1_witness:
  "load (example_env True) ''F3.json'' = Some F3 \<and> previous_json_data chain_at_F1 = F1 \<and>
   process_file (example_env True) (Some 0) chain_at_F1 ''F3.json'' =
     (\<lparr>previous_json_data = F3, previous_json_filename = Some ''F3.json'',
       deleted_count = 0, total_compared = 1\<rparr>,
      Compared ''F3.json'' (Some ''F1.json'') (2345624805922133 / 35184372088832) KEPT)"
proof -
  have h1: "load (example_env True) ''F3.json'' = Some F3"
    by (simp add: example_env_def)
  have h2: "previous_json_data chain_at_F1 = F1"
    by (simp add: chain_at_F1_def)
  from F3_against_F1 [of "example_env True" "''F3.json''" chain_at_F1] h1 h2
  show ?thesis by (simp add: chain_at_F1_def)
qed

section \<open>Properties of the flattening\<close>

subsection \<open>The paths are the rendered locations of the leaves\<close>

lemma set_leaf_items:
  "set (leaf_items items) =
     (\<Union>(k, v) \<in> set items. (\<lambda>(loc, s). (Key k # loc, s)) ` set (leaf_list v))"
proof (induction items)
  case Nil
  then show ?case by simp
next
  case (Cons kv items)
  obtain k v where "kv = (k, v)" by (cases kv)
  with Cons show ?case by simp
qed

lemma flatten_render:
  "is_dict_or_list v \<Longrightarrow>
     set (flatten_json_to_paths v p) = (\<lambda>(loc, s). (render_from p loc, s)) ` set (leaf_list v)"
  "set (flatten_items items p) = (\<lambda>(loc, s). (render_from p loc, s)) ` set (leaf_items items)"
  "set (flatten_elems i xs p) = (\<lambda>(loc, s). (render_from p loc, s)) ` set (leaf_elems i xs)"
proof (induction v p and items p and i xs p
    rule: flatten_json_to_paths_flatten_items_flatten_elems.induct)
  case (1 obj path)
  then show ?case
    by (simp add: set_leaf_items)
next
  case (5 k v rest path)
  show ?case
  proof (cases v)
    case (Scalar s)
    with 5 show ?thesis by (simp add: image_Un)
  next
    case (JList ys)
    with 5 show ?thesis by (simp add: image_Un image_image split_def)
  next
    case (JDict kvs)
    with 5 show ?thesis by (simp add: image_Un image_image split_def)
  qed
next
  case (7 i v rest path)
  show ?case
  proof (cases v)
    case (Scalar s)
    with 7 show ?thesis by (simp add: image_Un)
  next
    case (JList ys)
    with 7 show ?thesis by (simp add: image_Un image_image split_def)
  next
    case (JDict kvs)
    with 7 show ?thesis by (simp add: image_Un image_image split_def)
  qed
qed simp_all

lemma plain_locs:
  "plain_keys t \<Longrightarrow> \<forall>(loc, s) \<in> set (leaf_list t). list_all plain_step loc"
  "list_all (\<lambda>kv. plain_key (fst kv) \<and> plain_keys (snd kv)) items \<Longrightarrow>
     \<forall>(loc, s) \<in> set (leaf_items items). list_all plain_step loc"
  "list_all plain_keys xs \<Longrightarrow> \<forall>(loc, s) \<in> set (leaf_elems i xs). list_all plain_step loc"
  by (induction t and items and i xs rule: leaf_list_leaf_items_leaf_elems.induct) auto

lemma py_set_render:
  assumes "is_dict_or_list t"
  shows "py_set (flatten_json_to_paths t []) =
         (\<lambda>(loc, v). (render_from [] loc, v)) ` py_leaves t"
  by (simp add: py_set_def py_leaves_def flatten_render(1) [OF assms] image_image split_def)

lemma py_leaves_plain:
  "plain_keys t \<Longrightarrow> (loc, v) \<in> py_leaves t \<Longrightarrow> list_all plain_step loc"
  using plain_locs(1) [of t] by (auto simp: py_leaves_def)

subsection \<open>Rendering is injective on plain keys\<close>

lemma digit_char_inj: "a < 10 \<Longrightarrow> b < 10 \<Longrightarrow> digit_char a = digit_char b \<Longrightarrow> a = b"
proof -
  assume a: "a < 10" and b: "b < 10" and eq: "digit_char a = digit_char b"
  have d: "distinct ''0123456789''" by simp
  have l: "length ''0123456789'' = 10" by simp
  from eq have "''0123456789'' ! a = ''0123456789'' ! b" by (simp add: digit_char_def)
  with d a b l show "a = b"
    by (metis nth_eq_iff_index_eq)
qed

lemma digit_char_in: "d < 10 \<Longrightarrow> digit_char d \<in> set ''0123456789''"
  unfolding digit_char_def by (rule nth_mem) simp

lemma str_of_nat_nonempty: "str_of_nat n \<noteq> []"
  by (subst str_of_nat.simps) simp

lemma str_of_nat_digits: "set (str_of_nat n) \<subseteq> set ''0123456789''"
proof (induction n rule: str_of_nat.induct)
  case (1 n)
  show ?case
  proof (cases "n < 10")
    case True
    then show ?thesis
      using digit_char_in [of n] by (subst str_of_nat.simps) simp
  next
    case False
    have "n mod 10 < 10" by simp
    from digit_char_in [OF this] 1 [OF False] False show ?thesis
      by (subst str_of_nat.simps) simp
  qed
qed

lemma str_of_nat_no_bracket: "CHR '']'' \<notin> set (str_of_nat n)"
  using str_of_nat_digits [of n] by auto

lemma str_of_nat_inj: "str_of_nat n = str_of_nat m \<Longrightarrow> n = m"
proof (induction n arbitrary: m rule: str_of_nat.induct)
  case (1 n)
  show ?case
  proof (cases "n < 10")
    case n: True
    show ?thesis
    proof (cases "m < 10")
      case True
      with n 1 (2) show ?thesis
        by (simp add: str_of_nat.simps [of n] str_of_nat.simps [of m] digit_char_inj)
    next
      case False
      with n 1 (2) str_of_nat_nonempty [of "m div 10"] show ?thesis
        by (simp add: str_of_nat.simps [of n] str_of_nat.simps [of m])
    qed
  next
    case n: False
    show ?thesis
    proof (cases "m < 10")
      case True
      with n 1 (2) str_of_nat_nonempty [of "n div 10"] show ?thesis
        by (simp add: str_of_nat.simps [of n] str_of_nat.simps [of m])
    next
      case False
      with n 1 (2) have eq: "str_of_nat (n div 10) = str_of_nat (m div 10)"
        and d: "digit_char (n mod 10) = digit_char (m mod 10)"
        by (simp_all add: str_of_nat.simps [of n] str_of_nat.simps [of m])
      from 1 (1) [OF n eq] have "n div 10 = m div 10" .
      moreover from d have "n mod 10 = m mod 10"
        by (intro digit_char_inj) simp_all
      ultimately show ?thesis
        by (metis div_mult_mod_eq)
    qed
  qed
qed

lemma tail_ok_segs: "tail_ok (concat (map seg loc))"
proof (cases loc)
  case Nil
  then show ?thesis by (simp add: tail_ok_def)
next
  case (Cons a rest)
  then show ?thesis by (cases a) (simp_all add: tail_ok_def delim_def)
qed

lemma render_from_nonempty:
  "p \<noteq> [] \<Longrightarrow> render_from p loc = p @ concat (map seg loc)"
proof (induction loc arbitrary: p)
  case Nil
  then show ?case by simp
next
  case (Cons a loc)
  then show ?case by (cases a) simp_all
qed

lemma render_from_empty:
  "render_from [] [] = []"
  "k \<noteq> [] \<Longrightarrow> render_from [] (Key k # rest) = k @ concat (map seg rest)"
  "render_from [] (Index i # rest) = seg (Index i) @ concat (map seg rest)"
  by (simp_all add: render_from_nonempty)

lemma split_at_delim:
  assumes "\<forall>c \<in> set k1. \<not> P c" "\<forall>c \<in> set k2. \<not> P c"
    and "r1 = [] \<or> P (hd r1)" "r2 = [] \<or> P (hd r2)"
    and "k1 @ r1 = k2 @ r2"
  shows "k1 = k2 \<and> r1 = r2"
proof -
  have t: "takeWhile (\<lambda>c. \<not> P c) (k @ r) = k"
    if "\<forall>c \<in> set k. \<not> P c" "r = [] \<or> P (hd r)" for k r
  proof -
    have "takeWhile (\<lambda>c. \<not> P c) r = []"
      using that(2) by (cases r) auto
    with that(1) show ?thesis by (simp add: takeWhile_append2)
  qed
  from t [OF assms(1,3)] t [OF assms(2,4)] assms(5) have "k1 = k2" by simp
  with assms(5) show ?thesis by simp
qed

lemma plain_key_no_delim: "plain_key k \<Longrightarrow> \<forall>c \<in> set k. \<not> delim c"
  by (auto simp: plain_key_def delim_def)

lemma segs_inj:
  "list_all plain_step l1 \<Longrightarrow> list_all plain_step l2 \<Longrightarrow>
   concat (map seg l1) = concat (map seg l2) \<Longrightarrow> l1 = l2"
proof (induction l1 arbitrary: l2)
  case Nil
  then show ?case
  proof (cases l2)
    case (Cons b rest)
    with Nil show ?thesis by (cases b) simp_all
  qed simp
next
  case (Cons a l1)
  show ?case
  proof (cases l2)
    case Nil
    with Cons.prems show ?thesis by (cases a) simp_all
  next
    case l2: (Cons b l2')
    show ?thesis
    proof (cases a)
      case ka: (Key k1)
      show ?thesis
      proof (cases b)
        case (Key k2)
        with ka l2 Cons.prems have eq: "k1 @ concat (map seg l1) = k2 @ concat (map seg l2')"
          and p: "plain_key k1" "plain_key k2" by simp_all
        have "k1 = k2 \<and> concat (map seg l1) = concat (map seg l2')"
          using plain_key_no_delim [OF p(1)] plain_key_no_delim [OF p(2)]
            tail_ok_segs [of l1] tail_ok_segs [of l2'] eq
          by (intro split_at_delim [where P = delim]) (simp_all add: tail_ok_def)
        with Cons.IH [of l2'] Cons.prems l2 ka Key show ?thesis by simp
      next
        case (Index j)
        with ka l2 Cons.prems show ?thesis by simp
      qed
    next
      case ia: (Index i)
      show ?thesis
      proof (cases b)
        case (Key k2)
        with ia l2 Cons.prems show ?thesis by simp
      next
        case (Index j)
        with ia l2 Cons.prems have eq:
          "str_of_nat i @ (CHR '']'' # concat (map seg l1)) =
           str_of_nat j @ (CHR '']'' # concat (map seg l2'))" by simp
        have "str_of_nat i = str_of_nat j \<and>
              CHR '']'' # concat (map seg l1) = CHR '']'' # concat (map seg l2')"
          using str_of_nat_no_bracket [of i] str_of_nat_no_bracket [of j] eq
          by (intro split_at_delim [where P = "\<lambda>c. c = CHR '']''"]) auto
        with Cons.IH [of l2'] Cons.prems l2 ia Index show ?thesis
          by (simp add: str_of_nat_inj)
      qed
    qed
  qed
qed

lemma render_from_forms:
  "render_from [] [] = []"
  "plain_key k \<Longrightarrow> render_from [] (Key k # rest) = k @ concat (map seg rest)"
  "render_from [] (Index i # rest) = CHR ''['' # str_of_nat i @ '']'' @ concat (map seg rest)"
  by (simp_all add: render_from_nonempty plain_key_def)

lemma plain_key_head: "plain_key k \<Longrightarrow> \<exists>c cs. k = c # cs \<and> c \<noteq> CHR ''[''"
  by (cases k) (auto simp: plain_key_def)

lemma render_inj:
  assumes "list_all plain_step l1" "list_all plain_step l2"
    and "render_from [] l1 = render_from [] l2"
  shows "l1 = l2"
proof (cases l1)
  case Nil
  show ?thesis
  proof (cases l2)
    case l2: (Cons b rest)
    show ?thesis
    proof (cases b)
      case (Key k)
      with l2 assms(2) have "plain_key k" by simp
      from render_from_forms(2) [OF this, of rest] plain_key_head [OF this]
        assms(3) Nil l2 Key
      show ?thesis by (auto simp del: render_from.simps(2,3))
    next
      case (Index i)
      with assms(3) Nil l2 show ?thesis
        by (simp del: render_from.simps(2,3) add: render_from_forms)
    qed
  qed (simp add: Nil)
next
  case l1: (Cons a r1)
  show ?thesis
  proof (cases a)
    case ka: (Key k1)
    with l1 assms have p1: "plain_key k1" by simp
    note f1 = render_from_forms(2) [OF p1, of r1]
    show ?thesis
    proof (cases l2)
      case Nil
      with f1 plain_key_head [OF p1] assms(3) l1 ka show ?thesis
        by (auto simp del: render_from.simps(2,3))
    next
      case l2: (Cons b r2)
      show ?thesis
      proof (cases b)
        case (Key k2)
        with l2 assms have p2: "plain_key k2" by simp
        from assms(3) l1 l2 ka Key f1 render_from_forms(2) [OF p2, of r2]
        have eq: "k1 @ concat (map seg r1) = k2 @ concat (map seg r2)"
          by (simp del: render_from.simps(2,3))
        have "k1 = k2 \<and> concat (map seg r1) = concat (map seg r2)"
          using plain_key_no_delim [OF p1] plain_key_no_delim [OF p2]
            tail_ok_segs [of r1] tail_ok_segs [of r2] eq
          by (intro split_at_delim [where P = delim]) (simp_all add: tail_ok_def)
        with segs_inj [of r1 r2] assms l1 l2 ka Key show ?thesis by simp
      next
        case (Index j)
        from assms(3) l1 l2 ka Index f1 plain_key_head [OF p1]
        show ?thesis
          by (auto simp del: render_from.simps(2,3) simp add: render_from_forms(3))
      qed
    qed
  next
    case ia: (Index i)
    show ?thesis
    proof (cases l2)
      case Nil
      with assms(3) l1 ia show ?thesis
        by (simp del: render_from.simps(2,3) add: render_from_forms)
    next
      case l2: (Cons b r2)
      show ?thesis
      proof (cases b)
        case (Key k2)
        with l2 assms have p2: "plain_key k2" by simp
        from assms(3) l1 l2 ia Key render_from_forms(2) [OF p2, of r2] plain_key_head [OF p2]
        show ?thesis
          by (auto simp del: render_from.simps(2,3) simp add: render_from_forms(3))
      next
        case (Index j)
        have "a # r1 = b # r2"
          using assms l1 l2 ia Index
          by (intro segs_inj) (simp_all del: render_from.simps(2,3) add: render_from_forms(3))
        with l1 l2 show ?thesis by simp
      qed
    qed
  qed
qed

lemma render_pairs_inj:
  assumes "plain_keys t1" "plain_keys t2"
  shows "inj_on (\<lambda>(loc, v). (render_from [] loc, v)) (py_leaves t1 \<union> py_leaves t2)"
proof (rule inj_onI)
  fix x y
  assume x: "x \<in> py_leaves t1 \<union> py_leaves t2" and y: "y \<in> py_leaves t1 \<union> py_leaves t2"
    and eq: "(case x of (loc, v) \<Rightarrow> (render_from [] loc, v)) =
             (case y of (loc, v) \<Rightarrow> (render_from [] loc, v))"
  obtain l1 v1 where x': "x = (l1, v1)" by (cases x)
  obtain l2 v2 where y': "y = (l2, v2)" by (cases y)
  from x y x' y' assms have "list_all plain_step l1" "list_all plain_step l2"
    by (auto dest: py_leaves_plain)
  moreover from eq x' y' have "render_from [] l1 = render_from [] l2" "v1 = v2"
    by simp_all
  ultimately show "x = y"
    using x' y' by (simp add: render_inj)
qed

lemma flatten_order_independent:
  assumes "set kvs = set kvs'"
  shows "py_set (flatten_json_to_paths (JDict kvs) []) =
         py_set (flatten_json_to_paths (JDict kvs') [])"
proof -
  have "set (leaf_list (JDict kvs)) = set (leaf_list (JDict kvs'))"
    using assms by (simp add: set_leaf_items)
  then have eq: "py_leaves (JDict kvs) = py_leaves (JDict kvs')"
    by (simp add: py_leaves_def)
  have a: "py_set (flatten_json_to_paths (JDict kvs) []) =
         (\<lambda>(loc, v). (render_from [] loc, v)) ` py_leaves (JDict kvs)"
    by (rule py_set_render) simp
  have b: "py_set (flatten_json_to_paths (JDict kvs') []) =
         (\<lambda>(loc, v). (render_from [] loc, v)) ` py_leaves (JDict kvs')"
    by (rule py_set_render) simp
  show ?thesis
    unfolding a b eq ..
qed

text \<open>
  C8, as the claim states it: the two trees are normalised and their single leaves are
  at different locations, yet they flatten to the same set: the path \<^verbatim>\<open>a.b\<close> does not
  tell a key with a dot from two nested keys.
\<close>

theorem flatten_counterexample:
  "normalize_workflow_seeds dotted_key = dotted_key \<and>
   normalize_workflow_seeds nested_key = nested_key \<and>
   dotted_key \<noteq> nested_key \<and>
   leaf_list dotted_key = [([Key ''a.b''], SInt 1)] \<and>
   leaf_list nested_key = [([Key ''a'', Key ''b''], SInt 1)] \<and>
   py_set (flatten_json_to_paths dotted_key []) = py_set (flatten_json_to_paths nested_key [])"
  by code_simp

text \<open>
  C8, amended: for trees whose root is a mapping or a sequence and whose keys are plain,
  the set of pairs of path and value is a lossless encoding of the leaves up to Python's
  equality of values: two such trees flatten to the same set exactly when they have the
  same leaves at the same locations. The set does not depend on the order of the entries
  of a mapping. This holds for every such tree, normalised or not.
\<close>

theorem flatten_lossless_for_plain_keys:
  assumes "plain_keys t1" and "plain_keys t2"
    and "is_dict_or_list t1" and "is_dict_or_list t2"
  shows "(py_set (flatten_json_to_paths t1 []) = py_set (flatten_json_to_paths t2 []) \<longleftrightarrow>
            py_leaves t1 = py_leaves t2) \<and>
         (\<forall>kvs kvs'. set kvs = set kvs' \<longrightarrow>
            py_set (flatten_json_to_paths (JDict kvs) []) =
            py_set (flatten_json_to_paths (JDict kvs') []))"
proof -
  have "(\<lambda>(loc, v). (render_from [] loc, v)) ` py_leaves t1 =
        (\<lambda>(loc, v). (render_from [] loc, v)) ` py_leaves t2 \<longleftrightarrow>
        py_leaves t1 = py_leaves t2"
    by (rule inj_on_image_eq_iff [OF render_pairs_inj [OF assms(1,2)]]) simp_all
  then have "py_set (flatten_json_to_paths t1 []) = py_set (flatten_json_to_paths t2 []) \<longleftrightarrow>
            py_leaves t1 = py_leaves t2"
    by (simp only: py_set_render [OF assms(3)] py_set_render [OF assms(4)])
  with flatten_order_independent show ?thesis
    by blast
qed

theorem flatten_lossless_for_plain_keys_witness:
  "plain_keys leaves_a \<and> plain_keys leaves_b \<and>
   is_dict_or_list leaves_a \<and> is_dict_or_list leaves_b \<and>
   py_set (flatten_json_to_paths leaves_a []) = py_set (flatten_json_to_paths leaves_b []) \<and>
   py_leaves leaves_a = py_leaves leaves_b \<and>
   set [(''x'', JInt 5), (''seed'', JInt 0)] = set [(''seed'', JInt 0), (''x'', JInt 5)] \<and>
   py_set (flatten_json_to_paths (JDict [(''x'', JInt 5), (''seed'', JInt 0)]) []) =
   py_set (flatten_json_to_paths (JDict [(''seed'', JInt 0), (''x'', JInt 5)]) [])"
proof -
  have h1: "plain_keys leaves_a" by code_simp
  have h2: "plain_keys leaves_b" by code_simp
  have h3: "is_dict_or_list leaves_a" by (simp add: leaves_a_def)
  have h4: "is_dict_or_list leaves_b" by (simp add: leaves_b_def)
  have e: "py_set (flatten_json_to_paths leaves_a []) = py_set (flatten_json_to_paths leaves_b [])"
    by code_simp
  have s: "set [(''x'', JInt 5), (''seed'', JInt 0)] = set [(''seed'', JInt 0), (''x'', JInt 5)]"
    by auto
  note inst = flatten_lossless_for_plain_keys [OF h1 h2 h3 h4]
  from inst e have l: "py_leaves leaves_a = py_leaves leaves_b"
    by blast
  from inst s have o:
    "py_set (flatten_json_to_paths (JDict [(''x'', JInt 5), (''seed'', JInt 0)]) []) =
     py_set (flatten_json_to_paths (JDict [(''seed'', JInt 0), (''x'', JInt 5)]) [])"
    by blast
  from h1 h2 h3 h4 e l s o show ?thesis
    by blast
qed

section \<open>Properties of the run\<close>

lemma difference_nonneg: "0 \<le> calculate_json_difference_percentage a b"
  by (simp add: calculate_json_difference_percentage_def Let_def py_percentage_nonneg)

text \<open>With threshold 0 no run deletes a file, whatever the documents are.\<close>

lemma threshold_zero_never_deletes:
  "deleted_count (fst (run_files e (Some 0) st files)) = deleted_count st"
proof (induction files arbitrary: st)
  case Nil
  then show ?case by simp
next
  case (Cons filename rest)
  obtain st1 r where step: "process_file e (Some 0) st filename = (st1, r)"
    by (cases "process_file e (Some 0) st filename")
  have "deleted_count st1 = deleted_count st"
    using step difference_nonneg
    by (auto simp: process_file_def Let_def not_less [symmetric]
        split: option.splits if_splits)
  with Cons.IH [of st1] step show ?case
    by (auto split: prod.splits)
qed

text \<open>
  C3. With threshold 0 a document at distance 0 from the baseline is deleted, the claim
  says, and so do the docstring and the help text of the option. The code deletes under
  \<open>percentage_diff < 0\<close>, which never holds: in the directory of the example, \<open>F2\<close> is
  at distance 0 from \<open>F1\<close>, is kept, and becomes the baseline.
\<close>

theorem threshold_zero_keeps_duplicate:
  "calculate_json_difference_percentage F2 F1 = 0 \<and>
   compare_and_delete_jsons (example_env True) (Some 0) [''F1.json'', ''F2.json''] =
     (\<lparr>previous_json_data = F2, previous_json_filename = Some ''F2.json'',
       deleted_count = 0, total_compared = 1\<rparr>,
      [Initial ''F1.json'', Compared ''F2.json'' (Some ''F1.json'') 0 KEPT])"
  by code_simp

text \<open>
  C5. With a threshold \<open>t\<close>, a document whose distance to the baseline is exactly \<open>t\<close> is
  kept and becomes the baseline; and whenever a document is deleted under a threshold
  \<open>t'\<close>, its distance is strictly below \<open>t'\<close>.
\<close>

theorem threshold_is_strict:
  assumes "load e filename = Some current" and "previous_json_data st \<noteq> py_None"
  shows "(calculate_json_difference_percentage current (previous_json_data st) = t \<longrightarrow>
            process_file e (Some t) st filename =
              (st\<lparr>total_compared := total_compared st + 1, previous_json_data := current,
                  previous_json_filename := Some filename\<rparr>,
               Compared filename (previous_json_filename st) t KEPT)) \<and>
         (\<forall>t' f p d. snd (process_file e (Some t') st filename) = Compared f p d DELETED \<longrightarrow>
            d = calculate_json_difference_percentage current (previous_json_data st) \<and> d < t')"
  by (auto simp: process_file_compared [OF assms] Let_def split: if_splits)

theorem threshold_is_strict_witness:
  "load half_env ''b.json'' = Some half_b \<and>
   previous_json_data chain_at_half_a \<noteq> py_None \<and>
   calculate_json_difference_percentage half_b (previous_json_data chain_at_half_a) = 50 \<and>
   process_file half_env (Some 50) chain_at_half_a ''b.json'' =
     (chain_at_half_a\<lparr>total_compared := total_compared chain_at_half_a + 1,
         previous_json_data := half_b, previous_json_filename := Some ''b.json''\<rparr>,
      Compared ''b.json'' (previous_json_filename chain_at_half_a) 50 KEPT) \<and>
   snd (process_file half_env (Some 51) chain_at_half_a ''b.json'') =
     Compared ''b.json'' (Some ''a.json'') 50 DELETED \<and>
   (50 :: rat) < 51"
proof -
  have h1: "load half_env ''b.json'' = Some half_b"
    by (simp add: half_env_def)
  have h2: "previous_json_data chain_at_half_a \<noteq> py_None"
    by (simp add: chain_at_half_a_def half_a_def)
  have h3: "calculate_json_difference_percentage half_b (previous_json_data chain_at_half_a) = 50"
    by code_simp
  have h4: "snd (process_file half_env (Some 51) chain_at_half_a ''b.json'') =
     Compared ''b.json'' (Some ''a.json'') 50 DELETED"
    by code_simp
  from threshold_is_strict [OF h1 h2, of 50] h3
  have k: "process_file half_env (Some 50) chain_at_half_a ''b.json'' =
     (chain_at_half_a\<lparr>total_compared := total_compared chain_at_half_a + 1,
         previous_json_data := half_b, previous_json_filename := Some ''b.json''\<rparr>,
      Compared ''b.json'' (previous_json_filename chain_at_half_a) 50 KEPT)"
    by blast
  have l: "(50 :: rat) < 51" by simp
  from h1 h2 h3 k h4 l show ?thesis
    by blast
qed

text \<open>
  The distance that is tested is the rounded one: 29 differing pairs out of 50 give the
  float 57.99999999999999, which is below the threshold 58, and the file is deleted.
\<close>

lemma rounded_distance_below_threshold:
  "calculate_json_difference_percentage fifty_ones twenty_one_ones =
     8162774324609023 / 140737488355328 \<and>
   (8162774324609023 / 140737488355328 :: rat) < 58 \<and>
   process_file ones_env (Some 58) chain_at_twenty_one ''b.json'' =
     (chain_at_twenty_one\<lparr>total_compared := 1, deleted_count := 1\<rparr>,
      Compared ''b.json'' (Some ''a.json'') (8162774324609023 / 140737488355328) DELETED)"
  by code_simp

lemma process_file_baseline:
  "process_file e t st filename = (st1, r) \<Longrightarrow>
     (if is_retained r
      then load e filename = Some (previous_json_data st1) \<and>
           previous_json_filename st1 = Some filename
      else previous_json_data st1 = previous_json_data st \<and>
           previous_json_filename st1 = previous_json_filename st)"
  by (auto simp: process_file_def Let_def split: option.splits if_splits)

lemma process_file_retained:
  "process_file e t st filename = (st', r) \<Longrightarrow>
     previous_json_filename st' = retained (previous_json_filename st) r"
  by (auto simp: process_file_def Let_def split: option.splits if_splits)

lemma delete_error_continues:
  assumes "load e filename = Some current" and "previous_json_data st \<noteq> py_None"
    and "calculate_json_difference_percentage current (previous_json_data st) < T"
    and "\<not> remove_ok e filename"
  shows "run_files e (Some T) st (filename # rest) =
     (fst (run_files e (Some T) (st\<lparr>total_compared := total_compared st + 1\<rparr>) rest),
      Compared filename (previous_json_filename st)
        (calculate_json_difference_percentage current (previous_json_data st)) DELETE_ERROR
      # snd (run_files e (Some T) (st\<lparr>total_compared := total_compared st + 1\<rparr>) rest))"
  using assms(3,4)
  by (simp add: process_file_compared [OF assms(1,2)] Let_def split: prod.splits)

lemma run_files_retained:
  "run_files e t st files = (st', rs) \<Longrightarrow>
     previous_json_filename st' = foldl retained (previous_json_filename st) rs"
proof (induction files arbitrary: st st' rs)
  case Nil
  then show ?case by simp
next
  case (Cons filename rest)
  obtain st1 r where step: "process_file e t st filename = (st1, r)"
    by (cases "process_file e t st filename")
  obtain st2 rs2 where tail: "run_files e t st1 rest = (st2, rs2)"
    by (cases "run_files e t st1 rest")
  from Cons.prems step tail have eq: "st' = st2" "rs = r # rs2"
    by simp_all
  from Cons.IH [OF tail] process_file_retained [OF step] eq show ?case
    by simp
qed

lemma run_files_compared_against:
  "run_files e t st files = (st', rs) \<Longrightarrow> i < length rs \<Longrightarrow>
   rs ! i = Compared f p d act \<Longrightarrow>
     p = foldl retained (previous_json_filename st) (take i rs)"
proof (induction files arbitrary: st st' rs i)
  case Nil
  then show ?case by simp
next
  case (Cons filename rest)
  obtain st1 r where step: "process_file e t st filename = (st1, r)"
    by (cases "process_file e t st filename")
  obtain st2 rs2 where tail: "run_files e t st1 rest = (st2, rs2)"
    by (cases "run_files e t st1 rest")
  from Cons.prems step tail have eq: "st' = st2" "rs = r # rs2"
    by simp_all
  show ?case
  proof (cases i)
    case 0
    with Cons.prems eq have "r = Compared f p d act" by simp
    with step have "p = previous_json_filename st"
      by (auto simp: process_file_def Let_def split: option.splits if_splits prod.splits)
    with 0 show ?thesis by simp
  next
    case (Suc j)
    with Cons.prems eq have "j < length rs2" "rs2 ! j = Compared f p d act" by simp_all
    from Cons.IH [OF tail this] process_file_retained [OF step] Suc eq
    show ?thesis by simp
  qed
qed

text \<open>
  C6. The baseline changes only when a file is retained. One step of the loop either
  retains the file (the initial file, or a comparison that ends in \<open>KEPT\<close>) and makes it
  the baseline, or leaves the baseline as it was. When the removal of a file fails, the
  loop goes on with the rest of the files from a state that differs only in the count of
  comparisons. Over a whole run, the final baseline and the file each comparison is made
  against are the last file retained before.
\<close>

theorem baseline_only_updated_on_keep:
  "(process_file e t st filename = (st1, r) \<longrightarrow>
      (if is_retained r
       then load e filename = Some (previous_json_data st1) \<and>
            previous_json_filename st1 = Some filename
       else previous_json_data st1 = previous_json_data st \<and>
            previous_json_filename st1 = previous_json_filename st)) \<and>
   (load e filename = Some current \<and> previous_json_data st \<noteq> py_None \<and>
    calculate_json_difference_percentage current (previous_json_data st) < T \<and>
    \<not> remove_ok e filename \<longrightarrow>
      run_files e (Some T) st (filename # rest) =
        (fst (run_files e (Some T) (st\<lparr>total_compared := total_compared st + 1\<rparr>) rest),
         Compared filename (previous_json_filename st)
           (calculate_json_difference_percentage current (previous_json_data st)) DELETE_ERROR
         # snd (run_files e (Some T) (st\<lparr>total_compared := total_compared st + 1\<rparr>) rest))) \<and>
   (run_files e t st files = (st', rs) \<longrightarrow>
      previous_json_filename st' = foldl retained (previous_json_filename st) rs \<and>
      (\<forall>i f p d act. i < length rs \<and> rs ! i = Compared f p d act \<longrightarrow>
          p = foldl retained (previous_json_filename st) (take i rs)))"
  using process_file_baseline [of e t st filename st1 r]
    delete_error_continues [of e filename current st T rest]
    run_files_retained [of e t st files st' rs]
    run_files_compared_against [of e t st files st' rs]
  by blast

theorem baseline_only_updated_on_keep_witness:
  "process_file (example_env False) (Some 10) chain_at_F1 ''F2.json'' =
     (chain_at_F1\<lparr>total_compared := 1\<rparr>, Compared ''F2.json'' (Some ''F1.json'') 0 DELETE_ERROR) \<and>
   \<not> is_retained (Compared ''F2.json'' (Some ''F1.json'') 0 DELETE_ERROR) \<and>
   previous_json_data (chain_at_F1\<lparr>total_compared := 1\<rparr>) = previous_json_data chain_at_F1 \<and>
   load (example_env False) ''F2.json'' = Some F2 \<and>
   previous_json_data chain_at_F1 \<noteq> py_None \<and>
   calculate_json_difference_percentage F2 (previous_json_data chain_at_F1) < 10 \<and>
   \<not> remove_ok (example_env False) ''F2.json'' \<and>
   run_files (example_env False) (Some 10) chain_at_F1 [''F2.json'', ''F3.json''] =
     (\<lparr>previous_json_data = F3, previous_json_filename = Some ''F3.json'',
       deleted_count = 0, total_compared = 2\<rparr>,
      [Compared ''F2.json'' (Some ''F1.json'') 0 DELETE_ERROR,
       Compared ''F3.json'' (Some ''F1.json'') (2345624805922133 / 35184372088832) KEPT]) \<and>
   Some ''F1.json'' =
     foldl retained (previous_json_filename chain_at_F1)
       (take 1 [Compared ''F2.json'' (Some ''F1.json'') 0 DELETE_ERROR,
                Compared ''F3.json'' (Some ''F1.json'') (2345624805922133 / 35184372088832) KEPT])"
proof -
  let ?rs = "[Compared ''F2.json'' (Some ''F1.json'') 0 DELETE_ERROR,
              Compared ''F3.json'' (Some ''F1.json'') (2345624805922133 / 35184372088832) KEPT]"
  let ?st' = "\<lparr>previous_json_data = F3, previous_json_filename = Some ''F3.json'',
       deleted_count = 0, total_compared = 2\<rparr>"
  have step: "process_file (example_env False) (Some 10) chain_at_F1 ''F2.json'' =
     (chain_at_F1\<lparr>total_compared := 1\<rparr>, Compared ''F2.json'' (Some ''F1.json'') 0 DELETE_ERROR)"
    by code_simp
  have h1: "load (example_env False) ''F2.json'' = Some F2"
    by (simp add: example_env_def)
  have h2: "previous_json_data chain_at_F1 \<noteq> py_None"
    by (simp add: chain_at_F1_def F1_def)
  have h3: "calculate_json_difference_percentage F2 (previous_json_data chain_at_F1) < 10"
    by code_simp
  have h4: "\<not> remove_ok (example_env False) ''F2.json''"
    by (simp add: example_env_def)
  have run: "run_files (example_env False) (Some 10) chain_at_F1 [''F2.json'', ''F3.json''] =
     (?st', ?rs)"
    by code_simp
  note inst = baseline_only_updated_on_keep [of "example_env False" "Some 10" chain_at_F1
      "''F2.json''" "chain_at_F1\<lparr>total_compared := 1\<rparr>"
      "Compared ''F2.json'' (Some ''F1.json'') 0 DELETE_ERROR" F2 10 "[''F3.json'']"
      "[''F2.json'', ''F3.json'']" ?st' ?rs]
  have a: "previous_json_data (chain_at_F1\<lparr>total_compared := 1\<rparr>) = previous_json_data chain_at_F1"
    using inst step by simp
  have b: "Some ''F1.json'' = foldl retained (previous_json_filename chain_at_F1) (take 1 ?rs)"
    using inst run by (simp add: chain_at_F1_def)
  show ?thesis
    using step h1 h2 h3 h4 run a b by simp
qed

lemma scalar_difference_zero:
  "calculate_json_difference_percentage (Scalar a) (Scalar b) = 0"
  by (simp add: calculate_json_difference_percentage_def py_set_def)

text \<open>
  When the baseline is a scalar other than \<^verbatim>\<open>null\<close>, a scalar document is at distance 0
  and any positive threshold has it removed.
\<close>

lemma scalar_documents_dropped:
  assumes "load e filename = Some (Scalar b)" and "previous_json_data st = Scalar a"
    and "a \<noteq> SNone" and "0 < T"
  shows "process_file e (Some T) st filename =
     (if remove_ok e filename
      then (st\<lparr>total_compared := total_compared st + 1, deleted_count := deleted_count st + 1\<rparr>,
            Compared filename (previous_json_filename st) 0 DELETED)
      else (st\<lparr>total_compared := total_compared st + 1\<rparr>,
            Compared filename (previous_json_filename st) 0 DELETE_ERROR))"
  using assms by (simp add: process_file_compared scalar_difference_zero Let_def)

text \<open>
  C10. A scalar document flattens to no path, so two scalar documents are at distance 0;
  the claim has the later one deleted under any positive threshold. The code does so
  unless the earlier document is \<^verbatim>\<open>null\<close>: it loads as \<^verbatim>\<open>None\<close>, the value that stands
  for "no baseline yet", and the next file is printed as the initial file and kept. Here
  the directory holds \<^verbatim>\<open>null\<close> and \<^verbatim>\<open>5\<close> and the threshold is 10.
\<close>

theorem null_baseline_keeps_scalar:
  "flatten_json_to_paths (Scalar s) path = [] \<and>
   calculate_json_difference_percentage (Scalar a) (Scalar b) = 0 \<and>
   compare_and_delete_jsons null_then_five (Some 10) [''a.json'', ''b.json''] =
     (\<lparr>previous_json_data = JInt 5, previous_json_filename = Some ''b.json'',
       deleted_count = 0, total_compared = 0\<rparr>,
      [Initial ''a.json'', Initial ''b.json''])"
proof -
  have "compare_and_delete_jsons null_then_five (Some 10) [''a.json'', ''b.json''] =
     (\<lparr>previous_json_data = JInt 5, previous_json_filename = Some ''b.json'',
       deleted_count = 0, total_compared = 0\<rparr>,
      [Initial ''a.json'', Initial ''b.json''])"
    by code_simp
  then show ?thesis
    by (simp add: scalar_difference_zero)
qed

end
